theory Spec2Isabelle
  imports Complex_Main
begin

section \<open>Errors\<close>

text \<open>
  The exceptions the post-processing code of \<^verbatim>\<open>Processor.py\<close> can raise: numpy's
  \<^verbatim>\<open>ValueError\<close> (reshape, broadcasting, unpacking, empty concatenate), \<^verbatim>\<open>IndexError\<close>
  (an index out of bounds), \<^verbatim>\<open>TypeError\<close> (\<^verbatim>\<open>len\<close> of a 0-dimensional array) and
  \<^verbatim>\<open>SystemExit\<close> (the \<^verbatim>\<open>sys.exit()\<close> call).
  A computation is a value of \<open>error + 'a\<close>, \<open>Inl\<close> being the raise.
\<close>

datatype error = ValueError | IndexError | TypeError | SystemExit

definition bnd :: "error + 'a \<Rightarrow> ('a \<Rightarrow> error + 'b) \<Rightarrow> error + 'b" where
  "bnd m f = (case m of Inl e \<Rightarrow> Inl e | Inr x \<Rightarrow> f x)"

section \<open>A fragment of numpy\<close>

text \<open>
  An \<^verbatim>\<open>ndarray\<close> is a shape and its elements in C (row-major) order. Float arrays hold
  \<open>real\<close>s here: rounding, infinities and NaN of \<^verbatim>\<open>float32\<close> are outside the model.
\<close>

record 'a ndarray =
  shape :: "nat list"
  data :: "'a list"

definition well_shaped :: "'a ndarray \<Rightarrow> bool" where
  "well_shaped a = (length (data a) = prod_list (shape a))"

text \<open>Flat offset of a multi-index, and back (\<^verbatim>\<open>np.ravel_multi_index\<close>, \<^verbatim>\<open>np.unravel_index\<close>).\<close>

fun ravel :: "nat list \<Rightarrow> nat list \<Rightarrow> nat" where
  "ravel (d # ds) (i # is) = i * prod_list ds + ravel ds is"
| "ravel _ _ = 0"

fun unravel :: "nat list \<Rightarrow> nat \<Rightarrow> nat list" where
  "unravel [] k = []"
| "unravel (d # ds) k = (k div prod_list ds) # unravel ds (k mod prod_list ds)"

fun in_bounds :: "nat list \<Rightarrow> nat list \<Rightarrow> bool" where
  "in_bounds [] [] = True"
| "in_bounds (d # ds) (i # is) = (i < d \<and> in_bounds ds is)"
| "in_bounds _ _ = False"

definition item :: "'a ndarray \<Rightarrow> nat list \<Rightarrow> 'a" where
  "item a idx = data a ! ravel (shape a) idx"

text \<open>The array of shape \<open>s\<close> whose element at index \<open>idx\<close> is \<open>f idx\<close>.\<close>

definition tabulate :: "nat list \<Rightarrow> (nat list \<Rightarrow> 'a) \<Rightarrow> 'a ndarray" where
  "tabulate s f = \<lparr>shape = s, data = map (\<lambda>k. f (unravel s k)) [0..<prod_list s]\<rparr>"

text \<open>Elementwise operation with a scalar, or a ufunc of one argument.\<close>

definition np_map :: "('a \<Rightarrow> 'b) \<Rightarrow> 'a ndarray \<Rightarrow> 'b ndarray" where
  "np_map f a = \<lparr>shape = shape a, data = map f (data a)\<rparr>"

text \<open>
  Broadcasting of two shapes: the shorter one is padded with 1s on the left; two
  dimensions are compatible when they are equal or one of them is 1.
\<close>

definition pad_shape :: "nat \<Rightarrow> nat list \<Rightarrow> nat list" where
  "pad_shape n s = replicate (n - length s) 1 @ s"

fun bshape_eq :: "nat list \<Rightarrow> nat list \<Rightarrow> error + nat list" where
  "bshape_eq [] [] = Inr []"
| "bshape_eq (a # as) (b # bs) =
     (if a = b \<or> b = 1 then bnd (bshape_eq as bs) (\<lambda>r. Inr (a # r))
      else if a = 1 then bnd (bshape_eq as bs) (\<lambda>r. Inr (b # r))
      else Inl ValueError)"
| "bshape_eq _ _ = Inl ValueError"

definition bshape :: "nat list \<Rightarrow> nat list \<Rightarrow> error + nat list" where
  "bshape s t = (let n = max (length s) (length t) in bshape_eq (pad_shape n s) (pad_shape n t))"

text \<open>The element of \<open>a\<close> that index \<open>idx\<close> of the broadcast result reads.\<close>

definition bitem :: "'a ndarray \<Rightarrow> nat list \<Rightarrow> 'a" where
  "bitem a idx =
     item a (map2 (\<lambda>d i. if d = 1 then 0 else i) (shape a)
                  (drop (length idx - length (shape a)) idx))"

definition np_binop :: "('a \<Rightarrow> 'b \<Rightarrow> 'c) \<Rightarrow> 'a ndarray \<Rightarrow> 'b ndarray \<Rightarrow> error + 'c ndarray" where
  "np_binop f a b =
     bnd (bshape (shape a) (shape b))
       (\<lambda>s. Inr (tabulate s (\<lambda>idx. f (bitem a idx) (bitem b idx))))"

text \<open>
  \<^verbatim>\<open>a[..., lo:hi]\<close> for \<open>0 \<le> lo\<close>, \<open>0 \<le> hi\<close>: both ends are clipped to the last
  dimension. A 0-dimensional array has no last axis (\<^verbatim>\<open>IndexError\<close>).
\<close>

definition slice_bounds :: "nat \<Rightarrow> nat \<Rightarrow> nat \<Rightarrow> nat \<times> nat" where
  "slice_bounds lo hi d = (let l = min lo d in (l, max l (min hi d)))"

definition slice_last :: "nat \<Rightarrow> nat \<Rightarrow> 'a ndarray \<Rightarrow> error + 'a ndarray" where
  "slice_last lo hi a =
     (if shape a = [] then Inl IndexError
      else let (l, h) = slice_bounds lo hi (last (shape a))
           in Inr (tabulate (butlast (shape a) @ [h - l])
                     (\<lambda>idx. item a (butlast idx @ [l + last idx]))))"

text \<open>\<^verbatim>\<open>a[..., lo:]\<close>.\<close>

definition slice_from :: "nat \<Rightarrow> 'a ndarray \<Rightarrow> error + 'a ndarray" where
  "slice_from lo a = (if shape a = [] then Inl IndexError else slice_last lo (last (shape a)) a)"

text \<open>
  \<^verbatim>\<open>a[..., lo:hi] = v\<close>, for a value of the rank of \<open>a\<close> at most: the value must broadcast
  to the shape of the slice; the result is the new content of \<open>a\<close>.
\<close>

definition assign_last :: "nat \<Rightarrow> nat \<Rightarrow> 'a ndarray \<Rightarrow> 'a ndarray \<Rightarrow> error + 'a ndarray" where
  "assign_last lo hi a v =
     (if shape a = [] then Inl IndexError
      else let (l, h) = slice_bounds lo hi (last (shape a));
               target = butlast (shape a) @ [h - l]
           in if bshape target (shape v) = Inr target
              then Inr (tabulate (shape a)
                     (\<lambda>idx. if l \<le> last idx \<and> last idx < h
                            then bitem v (butlast idx @ [last idx - l])
                            else item a idx))
              else Inl ValueError)"

definition np_reshape :: "'a ndarray \<Rightarrow> nat list \<Rightarrow> error + 'a ndarray" where
  "np_reshape a s = (if prod_list s = length (data a) then Inr (a\<lparr>shape := s\<rparr>) else Inl ValueError)"

text \<open>\<^verbatim>\<open>np.arange(n)\<close>.\<close>

definition arange :: "nat \<Rightarrow> int ndarray" where
  "arange n = \<lparr>shape = [n], data = map int [0..<n]\<rparr>"

text \<open>
  \<^verbatim>\<open>np.meshgrid(x, y)\<close> of two vectors, with the default \<^verbatim>\<open>indexing='xy'\<close>: both results
  have shape \<open>(len y, len x)\<close>; the first repeats \<open>x\<close> along the rows, the second
  repeats \<open>y\<close> along the columns.
\<close>

definition meshgrid :: "'a ndarray \<Rightarrow> 'a ndarray \<Rightarrow> 'a ndarray \<times> 'a ndarray" where
  "meshgrid x y =
     (let s = [length (data y), length (data x)]
      in (tabulate s (\<lambda>idx. data x ! (idx ! 1)), tabulate s (\<lambda>idx. data y ! (idx ! 0))))"

text \<open>\<^verbatim>\<open>np.stack((a, b), axis=2)\<close> of two matrices of one shape.\<close>

definition stack2 :: "'a ndarray \<Rightarrow> 'a ndarray \<Rightarrow> error + 'a ndarray" where
  "stack2 a b =
     (if shape a = shape b
      then Inr (tabulate (shape a @ [2])
             (\<lambda>idx. if idx ! 2 = 0 then item a (take 2 idx) else item b (take 2 idx)))
      else Inl ValueError)"

text \<open>\<^verbatim>\<open>a[..., k]\<close> for \<open>0 \<le> k\<close>.\<close>

definition select_last :: "nat \<Rightarrow> 'a ndarray \<Rightarrow> error + 'a ndarray" where
  "select_last k a =
     (if shape a = [] then Inl IndexError
      else if last (shape a) \<le> k then Inl IndexError
      else Inr (tabulate (butlast (shape a)) (\<lambda>idx. item a (idx @ [k]))))"

text \<open>\<^verbatim>\<open>a[i]\<close> for \<open>0 \<le> i\<close>: the \<open>i\<close>-th block along the first axis.\<close>

definition np_index0 :: "'a ndarray \<Rightarrow> nat \<Rightarrow> error + 'a ndarray" where
  "np_index0 a i =
     (case shape a of
        [] \<Rightarrow> Inl IndexError
      | n # rest \<Rightarrow>
          if i < n
          then Inr \<lparr>shape = rest,
                    data = take (prod_list rest) (drop (i * prod_list rest) (data a))\<rparr>
          else Inl IndexError)"

text \<open>\<^verbatim>\<open>len(a)\<close>.\<close>

definition np_len :: "'a ndarray \<Rightarrow> error + nat" where
  "np_len a = (case shape a of [] \<Rightarrow> Inl TypeError | n # rest \<Rightarrow> Inr n)"

text \<open>
  \<^verbatim>\<open>a[m]\<close> for a boolean array \<open>m\<close> over the leading axes of \<open>a\<close>: the blocks of \<open>a\<close>
  whose mask element is true, in order, as a new array.
\<close>

definition np_mask :: "'a ndarray \<Rightarrow> bool ndarray \<Rightarrow> error + 'a ndarray" where
  "np_mask a m =
     (if take (length (shape m)) (shape a) = shape m
      then let rest = drop (length (shape m)) (shape a);
               w = prod_list rest;
               blocks = map (\<lambda>i. take w (drop (i * w) (data a))) [0..<prod_list (shape m)];
               kept = map snd (filter fst (zip (data m) blocks))
           in Inr \<lparr>shape = length kept # rest, data = concat kept\<rparr>
      else Inl IndexError)"

text \<open>
  \<^verbatim>\<open>np.concatenate(zs, 1)\<close>: the arrays agree on every axis but the second; an empty
  list is a \<^verbatim>\<open>ValueError\<close>.
\<close>

definition axis1_block :: "'a ndarray \<Rightarrow> nat" where
  "axis1_block a = prod_list (tl (shape a))"

definition concatenate1 :: "'a ndarray list \<Rightarrow> error + 'a ndarray" where
  "concatenate1 zs =
     (case zs of
        [] \<Rightarrow> Inl ValueError
      | z # _ \<Rightarrow>
          if \<forall>a \<in> set zs. 2 \<le> length (shape a) \<and> length (shape a) = length (shape z)
                \<and> hd (shape a) = hd (shape z) \<and> drop 2 (shape a) = drop 2 (shape z)
          then Inr \<lparr>shape = hd (shape z) # sum_list (map (\<lambda>a. shape a ! 1) zs) # drop 2 (shape z),
                    data = concat (map (\<lambda>i. concat (map (\<lambda>a. take (axis1_block a)
                                   (drop (i * axis1_block a) (data a))) zs))
                                 [0..<hd (shape z)])\<rparr>
          else Inl ValueError)"

section \<open>The processor\<close>

subsection \<open>Configuration\<close>

text \<open>The post-processing configuration set up by \<^verbatim>\<open>Processor.__init__\<close>.\<close>

definition output_shapes :: "nat list list" where
  "output_shapes = [[1, 3, 80, 80, 85], [1, 3, 40, 40, 85], [1, 3, 20, 20, 85]]"

definition strides :: "real list" where
  "strides = [8, 16, 32]"

definition anchors :: "real list list list" where
  "anchors = [[[10, 13], [16, 30], [33, 23]],
              [[30, 61], [62, 45], [59, 119]],
              [[116, 90], [156, 198], [373, 326]]]"

text \<open>
  \<^verbatim>\<open>anchor_grid\<close> has shape \<open>(nl, 1, na, 1, 1, 2)\<close>; iterating over it gives one array
  of shape \<open>(1, 3, 1, 1, 2)\<close> per scale.
\<close>

definition anchor_grid :: "real ndarray list" where
  "anchor_grid = map (\<lambda>a. \<lparr>shape = [1, 3, 1, 1, 2], data = concat a\<rparr>) anchors"

subsection \<open>Reshaping the engine's outputs\<close>

text \<open>
  \<^verbatim>\<open>Processor.detect(img)\<close>. Preprocessing and inference belong to OpenCV and TensorRT;
  \<open>outputs\<close> is what \<^verbatim>\<open>self.inference(self.pre_process(img))\<close> returned, one flat buffer
  per engine output. \<^verbatim>\<open>zip\<close> stops at the shorter of the two lists.
\<close>

fun reshape_outputs :: "(real ndarray \<times> nat list) list \<Rightarrow> error + real ndarray list" where
  "reshape_outputs [] = Inr []"
| "reshape_outputs ((output, shp) # rest) =
     bnd (np_reshape output shp) (\<lambda>r.
     bnd (reshape_outputs rest) (\<lambda>reshaped. Inr (r # reshaped)))"

definition detect :: "real ndarray list \<Rightarrow> error + real ndarray list" where
  "detect outputs = reshape_outputs (zip outputs output_shapes)"

subsection \<open>Activation\<close>

text \<open>\<^verbatim>\<open>Processor.sigmoid\<close> and \<^verbatim>\<open>Processor.sigmoid_v\<close>.\<close>

definition sigmoid :: "real \<Rightarrow> real" where
  "sigmoid x = 1 / (1 + exp (- x))"

definition sigmoid_v :: "real ndarray \<Rightarrow> real ndarray" where
  "sigmoid_v array = np_map (\<lambda>x. inverse (exp (- x) + 1)) array"

subsection \<open>The grid\<close>


text \<open>\<^verbatim>\<open>Processor.make_grid(nx, ny)\<close>.\<close>

definition make_grid :: "nat \<Rightarrow> nat \<Rightarrow> error + int ndarray" where
  "make_grid nx ny =
     (let nx_vec = arange nx;
          ny_vec = arange ny;
          (yv, xv) = meshgrid ny_vec nx_vec
      in bnd (stack2 yv xv) (\<lambda>grid. np_reshape grid [1, 1, ny, nx, 2]))"

subsection \<open>Arrays in memory\<close>

text \<open>
  The decoding functions assign into arrays in place, so the arrays they are given and the
  ones they create live in a heap: a reference is an index into the list of all arrays.
  A numpy function that returns a new array allocates; an assignment through a slice
  overwrites the array behind the reference.
\<close>

type_synonym ref = nat
type_synonym heap = "real ndarray list"

definition alloc :: "heap \<Rightarrow> real ndarray \<Rightarrow> ref \<times> heap" where
  "alloc h a = (length h, h @ [a])"

subsection \<open>Class scores\<close>

text \<open>\<^verbatim>\<open>Processor.extract_class_grids(output)\<close>; the result lists the new arrays.\<close>

fun extract_class_grids :: "heap \<Rightarrow> ref list \<Rightarrow> error + (ref list \<times> heap)" where
  "extract_class_grids h [] = Inr ([], h)"
| "extract_class_grids h (out # output) =
     bnd (slice_last 4 5 (h ! out)) (\<lambda>obj.
     let object_probs = sigmoid_v obj in
     bnd (slice_from 5 (h ! out)) (\<lambda>cls.
     let class_probs = sigmoid_v cls in
     bnd (np_binop (*) class_probs object_probs) (\<lambda>obj_class_probs.
     let (r, h1) = alloc h obj_class_probs in
     bnd (extract_class_grids h1 output) (\<lambda>(class_grids, h2).
     Inr (r # class_grids, h2)))))"

subsection \<open>Boxes\<close>

text \<open>
  \<^verbatim>\<open>Processor.xywh2xyxy(x)\<close>: \<open>y\<close> starts as \<^verbatim>\<open>np.zeros_like(x)\<close> and gets its first four
  columns (indices along axis 1) from \<open>x\<close>; a column index out of range is an
  \<^verbatim>\<open>IndexError\<close>.
\<close>

definition xywh2xyxy :: "real ndarray \<Rightarrow> error + real ndarray" where
  "xywh2xyxy x =
     (if length (shape x) < 2 \<or> shape x ! 1 < 4 then Inl IndexError
      else Inr (tabulate (shape x)
             (\<lambda>idx. if idx ! 1 = 0 then item x (idx[1 := 0]) - item x (idx[1 := 2]) / 2
                    else if idx ! 1 = 1 then item x (idx[1 := 1]) - item x (idx[1 := 3]) / 2
                    else if idx ! 1 = 2 then item x (idx[1 := 0]) + item x (idx[1 := 2]) / 2
                    else if idx ! 1 = 3 then item x (idx[1 := 1]) + item x (idx[1 := 3]) / 2
                    else 0)))"

text \<open>
  The first loop of \<^verbatim>\<open>Processor.extract_boxes\<close>: \<^verbatim>\<open>out = self.sigmoid_v(out)\<close> binds
  \<open>out\<close> to a new array; unpacking \<^verbatim>\<open>out.shape\<close> into five names needs five dimensions.
\<close>

fun extract_boxes_activate :: "heap \<Rightarrow> ref list \<Rightarrow> error + ((ref list \<times> int ndarray list) \<times> heap)" where
  "extract_boxes_activate h [] = Inr (([], []), h)"
| "extract_boxes_activate h (out # output) =
     (let (out, h1) = alloc h (sigmoid_v (h ! out))
      in case shape (h1 ! out) of
           [_, _, width, height, _] \<Rightarrow>
             bnd (make_grid width height) (\<lambda>grid.
             bnd (extract_boxes_activate h1 output) (\<lambda>((scaled, grids), h2).
             Inr ((out # scaled, grid # grids), h2)))
         | _ \<Rightarrow> Inl ValueError)"

text \<open>
  The body of the second loop: the two assignments write into the array behind \<open>out\<close>;
  \<^verbatim>\<open>out.reshape(...)\<close> is the value appended to \<open>z\<close>.
\<close>

definition extract_boxes_scale ::
    "heap \<Rightarrow> ref \<times> int ndarray \<times> real \<times> real ndarray \<Rightarrow> error + (real ndarray \<times> heap)" where
  "extract_boxes_scale h = (\<lambda>(out, grid, stride, anchor).
     case shape (h ! out) of
       [_, _, width, height, _] \<Rightarrow>
         bnd (slice_last 0 2 (h ! out)) (\<lambda>xy.
         bnd (np_binop (+) (np_map (\<lambda>v. v - 0.5) (np_map (\<lambda>v. v * 2) xy)) (np_map real_of_int grid)) (\<lambda>t.
         bnd (assign_last 0 2 (h ! out) (np_map (\<lambda>v. v * stride) t)) (\<lambda>o1.
         let h1 = h[out := o1] in
         bnd (slice_last 2 4 (h1 ! out)) (\<lambda>wh.
         bnd (np_binop (*) (np_map (\<lambda>v. v ^ 2) (np_map (\<lambda>v. v * 2) wh)) anchor) (\<lambda>t2.
         bnd (assign_last 2 4 (h1 ! out) t2) (\<lambda>o2.
         let h2 = h1[out := o2] in
         bnd (np_reshape (h2 ! out) [1, 3 * width * height, 85]) (\<lambda>z1.
         Inr (z1, h2))))))))
     | _ \<Rightarrow> Inl ValueError)"

fun extract_boxes_decode ::
    "heap \<Rightarrow> (ref \<times> int ndarray \<times> real \<times> real ndarray) list \<Rightarrow> error + (real ndarray list \<times> heap)" where
  "extract_boxes_decode h [] = Inr ([], h)"
| "extract_boxes_decode h (x # xs) =
     bnd (extract_boxes_scale h x) (\<lambda>(z1, h1).
     bnd (extract_boxes_decode h1 xs) (\<lambda>(z, h2). Inr (z1 # z, h2)))"

text \<open>Both loops: the list \<open>z\<close> of decoded arrays, one of shape \<open>(1, 3*width*height, 85)\<close> per scale.\<close>

definition extract_boxes_z :: "heap \<Rightarrow> ref list \<Rightarrow> error + (real ndarray list \<times> heap)" where
  "extract_boxes_z h output =
     bnd (extract_boxes_activate h output) (\<lambda>((scaled, grids), h1).
     extract_boxes_decode h1 (zip scaled (zip grids (zip strides anchor_grid))))"

text \<open>
  \<^verbatim>\<open>Processor.extract_boxes(output, conf_thres)\<close>: the result is the array of boxes and
  the memory after the call.
\<close>

definition extract_boxes :: "heap \<Rightarrow> ref list \<Rightarrow> real \<Rightarrow> error + (real ndarray \<times> heap)" where
  "extract_boxes h output conf_thres =
     bnd (extract_boxes_z h output) (\<lambda>(z, h').
     bnd (concatenate1 z) (\<lambda>pred.
     bnd (select_last 4 pred) (\<lambda>obj.
     let xc = np_map (\<lambda>v. v > conf_thres) obj in
     bnd (np_mask pred xc) (\<lambda>pred.
     bnd (slice_last 0 4 pred) (\<lambda>xywh.
     bnd (xywh2xyxy xywh) (\<lambda>boxes.
     Inr (boxes, h')))))))"

subsection \<open>Suppression\<close>

text \<open>
  \<^verbatim>\<open>Processor.non_max_suppression(pred, conf_thres, iou_thres, classes)\<close>. The mask
  \<open>xc\<close> of line 187 compares with the literal \<open>0.1\<close>; \<open>conf_thres\<close> is not read.
\<close>

definition nms_xc :: "real ndarray \<Rightarrow> real \<Rightarrow> error + bool ndarray" where
  "nms_xc pred conf_thres = bnd (select_last 4 pred) (\<lambda>obj. Inr (np_map (\<lambda>v. v > 0.1) obj))"

text \<open>\<^verbatim>\<open>x = x[xc[xi]]\<close> for image \<open>xi\<close>: the candidates that enter suppression.\<close>

definition nms_candidates :: "real ndarray \<Rightarrow> bool ndarray \<Rightarrow> nat \<Rightarrow> error + real ndarray" where
  "nms_candidates pred xc xi =
     bnd (np_index0 pred xi) (\<lambda>x.
     bnd (np_index0 xc xi) (\<lambda>m. np_mask x m))"

text \<open>\<^verbatim>\<open>x[:, 5:] *= x[:, 4:5]\<close>, on a two-dimensional \<open>x\<close>.\<close>

definition nms_fuse :: "real ndarray \<Rightarrow> error + real ndarray" where
  "nms_fuse x =
     bnd (slice_from 5 x) (\<lambda>cls.
     bnd (slice_last 4 5 x) (\<lambda>obj.
     bnd (np_binop (*) cls obj) (\<lambda>v.
     assign_last 5 (last (shape x)) x v)))"

text \<open>
  The loop body for image \<open>xi\<close>, up to the \<^verbatim>\<open>sys.exit()\<close> of line 211; the statements
  after it are never reached.
\<close>

definition nms_image :: "real ndarray \<Rightarrow> bool ndarray \<Rightarrow> nat \<Rightarrow> error + real ndarray" where
  "nms_image pred xc xi =
     bnd (nms_candidates pred xc xi) (\<lambda>x.
     bnd (nms_fuse x) (\<lambda>x.
     bnd (np_index0 x 0) (\<lambda>x0.
     bnd (slice_from 5 x0) (\<lambda>_.
     bnd (slice_last 0 4 x) (\<lambda>xywh.
     bnd (xywh2xyxy xywh) (\<lambda>box.
     Inl SystemExit))))))"

fun nms_images ::
    "real ndarray \<Rightarrow> bool ndarray \<Rightarrow> nat list \<Rightarrow> real ndarray option list \<Rightarrow> error + real ndarray option list" where
  "nms_images pred xc [] output = Inr output"
| "nms_images pred xc (xi # xis) output =
     bnd (nms_image pred xc xi) (\<lambda>x. nms_images pred xc xis (output[xi := Some x]))"

definition non_max_suppression ::
    "real ndarray \<Rightarrow> real \<Rightarrow> real \<Rightarrow> nat list option \<Rightarrow> error + real ndarray option list" where
  "non_max_suppression pred conf_thres iou_thres classes =
     bnd (np_index0 pred 0) (\<lambda>pred0.
     if length (shape pred0) < 2 then Inl IndexError
     else let nc = int (shape pred0 ! 1) - 5 in
     bnd (nms_xc pred conf_thres) (\<lambda>xc.
     bnd (np_len pred) (\<lambda>n.
     nms_images pred xc [0..<n] (replicate n None))))"

text \<open>
  \<^verbatim>\<open>Processor.nms(boxes, scores, iou_thres, max_det)\<close>. The function ends after the
  \<^verbatim>\<open>astype\<close> line, so a non-empty \<open>boxes\<close> falls off its end and Python returns \<^verbatim>\<open>None\<close>
  (here \<open>None\<close>); the empty list is \<open>Some []\<close>. \<open>max_det\<close> is a count of detections.
\<close>

definition nms :: "real ndarray \<Rightarrow> real ndarray \<Rightarrow> real \<Rightarrow> nat \<Rightarrow> error + real ndarray list option" where
  "nms boxes scores iou_thres max_det =
     bnd (np_len boxes) (\<lambda>n.
     if n = 0 then Inr (Some [])
     else let boxes = np_map (\<lambda>v. v) boxes in Inr None)"

subsection \<open>Predicates of the statements\<close>

text \<open>
  \<open>fused raw r\<close>: every element of \<open>r\<close> is the product of the activated class value
  and the activated objectness of its cell of \<open>raw\<close>.
  \<open>scale_ok h x\<close>: what the second loop of \<open>extract_boxes\<close> needs of one scale.
  \<open>decoded o0 stride anchor z\<close>: \<open>z\<close> holds the rows of the activated array \<open>o0\<close> with
  the first four columns decoded.
\<close>

definition fused :: "real ndarray \<Rightarrow> real ndarray \<Rightarrow> bool" where
  "fused raw r =
     (well_shaped r \<and> shape r = butlast (shape raw) @ [last (shape raw) - 5]
      \<and> (\<forall>x a i j c. in_bounds (shape raw) [x, a, i, j, 5 + c] \<longrightarrow>
            item r [x, a, i, j, c]
              = sigmoid (item raw [x, a, i, j, 5 + c]) * sigmoid (item raw [x, a, i, j, 4])))"

definition scale_ok :: "heap \<Rightarrow> ref \<times> int ndarray \<times> real \<times> real ndarray \<Rightarrow> bool" where
  "scale_ok h = (\<lambda>(out, grid, stride, anchor).
     out < length h \<and> well_shaped (h ! out) \<and> shape anchor = [1, 3, 1, 1, 2]
     \<and> (\<exists>n. shape (h ! out) = [1, 3, n, n, 85] \<and> make_grid n n = Inr grid))"

definition decoded :: "real ndarray \<Rightarrow> real \<Rightarrow> real ndarray \<Rightarrow> real ndarray \<Rightarrow> bool" where
  "decoded o0 stride anchor z =
     (let n = shape o0 ! 2
      in shape z = [1, 3 * n * n, 85] \<and> well_shaped z
       \<and> (\<forall>a<3. \<forall>i<n. \<forall>j<n. \<forall>c<85. item z [0, (a * n + i) * n + j, c] =
            (if c = 0 then (item o0 [0, a, i, j, 0] * 2 - 0.5 + real j) * stride
             else if c = 1 then (item o0 [0, a, i, j, 1] * 2 - 0.5 + real i) * stride
             else if c = 2 then (item o0 [0, a, i, j, 2] * 2) ^ 2 * item anchor [0, a, 0, 0, 0]
             else if c = 3 then (item o0 [0, a, i, j, 3] * 2) ^ 2 * item anchor [0, a, 0, 0, 1]
             else item o0 [0, a, i, j, c])))"

section \<open>Basic facts about indices\<close>

lemma bnd_Inr [simp]: "bnd (Inr x) f = f x"
  by (simp add: bnd_def)

lemma bnd_Inl [simp]: "bnd (Inl e) f = Inl e"
  by (simp add: bnd_def)

lemma bnd_eq_Inr: "bnd m f = Inr y \<longleftrightarrow> (\<exists>x. m = Inr x \<and> f x = Inr y)"
  by (cases m) simp_all

lemma ravel_bound: "in_bounds s idx \<Longrightarrow> ravel s idx < prod_list s"
proof (induction s idx rule: in_bounds.induct)
  case (2 d ds i "is")
  then have i: "i < d" and r: "ravel ds is < prod_list ds" by simp_all
  have "i * prod_list ds + ravel ds is < i * prod_list ds + prod_list ds"
    using r by simp
  also have "\<dots> = Suc i * prod_list ds" by simp
  also have "\<dots> \<le> d * prod_list ds"
    using i by (intro mult_le_mono1) simp
  finally show ?case by simp
qed simp_all

lemma unravel_ravel: "in_bounds s idx \<Longrightarrow> unravel s (ravel s idx) = idx"
proof (induction s idx rule: in_bounds.induct)
  case (2 d ds i "is")
  then have r: "ravel ds is < prod_list ds" by (simp add: ravel_bound)
  with 2 show ?case by simp
qed simp_all

lemma item_tabulate: "in_bounds s idx \<Longrightarrow> item (tabulate s f) idx = f idx"
  by (simp add: item_def tabulate_def ravel_bound unravel_ravel)

lemma shape_tabulate [simp]: "shape (tabulate s f) = s"
  by (simp add: tabulate_def)

lemma well_shaped_tabulate [simp]: "well_shaped (tabulate s f)"
  by (simp add: well_shaped_def tabulate_def)

lemma length_data_tabulate [simp]: "length (data (tabulate s f)) = prod_list s"
  by (simp add: tabulate_def)

lemma data_tabulate_nth: "k < prod_list s \<Longrightarrow> data (tabulate s f) ! k = f (unravel s k)"
  by (simp add: tabulate_def)

lemma arange_simps [simp]:
  "shape (arange n) = [n]" "length (data (arange n)) = n"
  "i < n \<Longrightarrow> data (arange n) ! i = int i"
  by (simp_all add: arange_def)

lemma item_reshape: "np_reshape a s = Inr b \<Longrightarrow> item b idx = data a ! ravel s idx"
  by (auto simp: np_reshape_def item_def split: if_splits)

lemma shape_reshape: "np_reshape a s = Inr b \<Longrightarrow> shape b = s \<and> data b = data a"
  by (auto simp: np_reshape_def split: if_splits)

section \<open>The grid\<close>

lemma make_grid_shape:
  "\<exists>g. make_grid nx ny = Inr g \<and> shape g = [1, 1, ny, nx, 2] \<and> well_shaped g"
  by (simp add: make_grid_def meshgrid_def stack2_def np_reshape_def Let_def
      well_shaped_def mult.commute)

text \<open>
  What \<open>make_grid\<close> stores in general: the stack of shape \<open>(nx, ny, 2)\<close> is read in
  row-major order through the shape \<open>(1, 1, ny, nx, 2)\<close>.
\<close>

lemma make_grid_item:
  assumes r: "r < ny" and c: "c < nx" and k: "k < 2" and g: "make_grid nx ny = Inr g"
  shows "item g [0, 0, r, c, k] =
          (if k = 0 then int ((r * nx + c) mod ny) else int ((r * nx + c) div ny))"
proof -
  let ?m = "r * nx + c"
  define yv where "yv = tabulate [nx, ny] (\<lambda>idx. data (arange ny) ! (idx ! 1))"
  define xv where "xv = tabulate [nx, ny] (\<lambda>idx. data (arange nx) ! (idx ! 0))"
  define F where
    "F = (\<lambda>idx::nat list. if idx ! 2 = 0 then item yv (take 2 idx) else item xv (take 2 idx))"
  have ny0: "0 < ny" using r by simp
  have "?m < Suc r * nx" using c by simp
  also have "\<dots> \<le> ny * nx" using r by (intro mult_le_mono1) simp
  finally have m: "?m < nx * ny" by (simp add: mult.commute)
  then have q: "?m div ny < nx" using ny0
    by (simp add: less_mult_imp_div_less mult.commute)
  have md: "?m mod ny < ny" using ny0 by simp
  have ib: "in_bounds [nx, ny, 2] [?m div ny, ?m mod ny, k]"
    using q md k by simp
  have ib2: "in_bounds [nx, ny] [?m div ny, ?m mod ny]"
    using q md by simp
  have mg: "meshgrid (arange ny) (arange nx) = (yv, xv)"
    by (simp add: meshgrid_def yv_def xv_def Let_def)
  have sh: "shape yv = [nx, ny]" "shape xv = [nx, ny]"
    by (simp_all add: yv_def xv_def)
  have st: "stack2 yv xv = Inr (tabulate [nx, ny, 2] F)"
    by (simp add: stack2_def F_def sh)
  have "np_reshape (tabulate [nx, ny, 2] F) [1, 1, ny, nx, 2] = Inr g"
    using g by (simp add: make_grid_def mg st)
  then have it: "item g [0, 0, r, c, k] =
      data (tabulate [nx, ny, 2] F) ! ravel [1, 1, ny, nx, 2] [0, 0, r, c, k]"
    by (rule item_reshape)
  have rv: "ravel [1, 1, ny, nx, 2] [0, 0, r, c, k] = ravel [nx, ny, 2] [?m div ny, ?m mod ny, k]"
  proof -
    have l: "ravel [1, 1, ny, nx, 2] [0, 0, r, c, k] = ?m * 2 + k"
      by (simp add: algebra_simps)
    have "ravel [nx, ny, 2] [?m div ny, ?m mod ny, k] = (?m div ny * ny + ?m mod ny) * 2 + k"
      by (simp add: algebra_simps)
    also have "\<dots> = ?m * 2 + k"
      by (simp only: div_mult_mod_eq)
    finally show ?thesis using l by simp
  qed
  have "item g [0, 0, r, c, k] = item (tabulate [nx, ny, 2] F) [?m div ny, ?m mod ny, k]"
    by (subst it, subst rv) (simp only: item_def shape_tabulate)
  also have "\<dots> = F [?m div ny, ?m mod ny, k]"
    by (rule item_tabulate [OF ib])
  also have "\<dots> = (if k = 0 then int (?m mod ny) else int (?m div ny))"
    using ib2 q md by (simp add: F_def yv_def xv_def item_tabulate)
  finally show ?thesis .
qed

lemma make_grid_square_item:
  assumes "gy < n" "gx < n" "make_grid n n = Inr g"
  shows "item g [0, 0, gy, gx, 0] = int gx \<and> item g [0, 0, gy, gx, 1] = int gy"
  using assms make_grid_item [of gy n gx n 0 g] make_grid_item [of gy n gx n 1 g]
  by simp

text \<open>
  Claim C2, as stated, fails. On the 2 x 2 grid the cell at row 0, column 1 stores
  \<open>(1, 0)\<close>: the column index first, not the row index. On the grid of width 2 and
  height 3 the cell at row 1, column 0 stores \<open>(2, 0)\<close>, which is neither order of its
  coordinates.
\<close>

theorem make_grid_counterexample:
  "make_grid 2 2 = Inr \<lparr>shape = [1, 1, 2, 2, 2], data = [0, 0, 1, 0, 0, 1, 1, 1]\<rparr>
   \<and> item \<lparr>shape = [1, 1, 2, 2, 2], data = [0, 0, 1, 0, 0, 1, 1, 1 :: int]\<rparr> [0, 0, 0, 1, 0] = 1
   \<and> item \<lparr>shape = [1, 1, 2, 2, 2], data = [0, 0, 1, 0, 0, 1, 1, 1 :: int]\<rparr> [0, 0, 0, 1, 1] = 0
   \<and> make_grid 2 3 = Inr \<lparr>shape = [1, 1, 3, 2, 2], data = [0, 0, 1, 0, 2, 0, 0, 1, 1, 1, 2, 1]\<rparr>
   \<and> item \<lparr>shape = [1, 1, 3, 2, 2], data = [0, 0, 1, 0, 2, 0, 0, 1, 1, 1, 2, 1 :: int]\<rparr> [0, 0, 1, 0, 0] = 2
   \<and> item \<lparr>shape = [1, 1, 3, 2, 2], data = [0, 0, 1, 0, 2, 0, 0, 1, 1, 1, 2, 1 :: int]\<rparr> [0, 0, 1, 0, 1] = 0"
  by code_simp

text \<open>
  Claim C2, amended: for a square grid, \<open>make_grid n n\<close> returns a grid of shape
  \<open>(1, 1, n, n, 2)\<close> in which the cell at row \<open>gy\<close> and column \<open>gx\<close> stores the pair
  \<open>(gx, gy)\<close>, the column index first.
\<close>

theorem make_grid_square:
  "\<exists>g. make_grid n n = Inr g \<and> shape g = [1, 1, n, n, 2]
       \<and> (\<forall>gy < n. \<forall>gx < n. item g [0, 0, gy, gx, 0] = int gx \<and> item g [0, 0, gy, gx, 1] = int gy)"
proof -
  obtain g where g: "make_grid n n = Inr g" and s: "shape g = [1, 1, n, n, 2]"
    using make_grid_shape [of n n] by blast
  have "item g [0, 0, gy, gx, 0] = int gx \<and> item g [0, 0, gy, gx, 1] = int gy"
    if "gy < n" "gx < n" for gy gx
    using that g by (rule make_grid_square_item)
  with g s show ?thesis by blast
qed

theorem make_grid_square_witness:
  "\<exists>g. make_grid 3 3 = Inr g \<and> shape g = [1, 1, 3, 3, 2]
       \<and> item g [0, 0, 2, 1, 0] = 1 \<and> item g [0, 0, 2, 1, 1] = 2"
  using make_grid_square [of 3] by fastforce

section \<open>Class scores\<close>

lemma sigmoid_0: "sigmoid 0 = 1 / 2"
  by (simp add: sigmoid_def)

lemma shape_np_map [simp]: "shape (np_map f a) = shape a"
  by (simp add: np_map_def)

lemma well_shaped_np_map [simp]: "well_shaped (np_map f a) = well_shaped a"
  by (simp add: np_map_def well_shaped_def)

lemma item_np_map:
  "well_shaped a \<Longrightarrow> in_bounds (shape a) idx \<Longrightarrow> item (np_map f a) idx = f (item a idx)"
  using ravel_bound [of "shape a" idx] by (simp add: item_def np_map_def well_shaped_def)

lemma idx_if_one [simp]: "i < d \<Longrightarrow> (if d = Suc 0 then 0 else i) = i"
  by auto

lemma slice_last5:
  assumes "shape a = [b, na, gh, gw, d]"
  shows "slice_last lo hi a =
     Inr (tabulate [b, na, gh, gw, max (min lo d) (min hi d) - min lo d]
            (\<lambda>idx. item a (butlast idx @ [min lo d + last idx])))"
  using assms by (simp add: slice_last_def slice_bounds_def Let_def)

lemma bshape5:
  "bshape [a1, a2, a3, a4, a5] [b1, b2, b3, b4, b5] =
     bshape_eq [a1, a2, a3, a4, a5] [b1, b2, b3, b4, b5]"
  by (simp add: bshape_def pad_shape_def)

lemma bitem5:
  assumes "shape a = [b1, b2, b3, b4, b5]"
  shows "bitem a [i1, i2, i3, i4, i5] =
    item a [if b1 = 1 then 0 else i1, if b2 = 1 then 0 else i2, if b3 = 1 then 0 else i3,
            if b4 = 1 then 0 else i4, if b5 = 1 then 0 else i5]"
  using assms by (simp add: bitem_def)

text \<open>The body of the loop of extract_class_grids\<close>
lemma class_grid_body:
  assumes s: "shape raw = [b, na, gh, gw, no]" and w: "well_shaped raw"
  shows "\<exists>r. bnd (slice_last 4 5 raw) (\<lambda>obj. let object_probs = sigmoid_v obj in
            bnd (slice_from 5 raw) (\<lambda>cls. let class_probs = sigmoid_v cls in
            bnd (np_binop (*) class_probs object_probs) (\<lambda>ocp. f ocp))) = f r
         \<and> shape r = [b, na, gh, gw, no - 5] \<and> well_shaped r
         \<and> (\<forall>x<b. \<forall>a<na. \<forall>i<gh. \<forall>j<gw. \<forall>c<no - 5.
               item r [x, a, i, j, c] =
                 sigmoid (item raw [x, a, i, j, 5 + c]) * sigmoid (item raw [x, a, i, j, 4]))"
proof -
  define obj where "obj = tabulate [b, na, gh, gw, max (min 4 no) (min 5 no) - min 4 no]
            (\<lambda>idx. item raw (butlast idx @ [min 4 no + last idx]))"
  define cls where "cls = tabulate [b, na, gh, gw, no - 5]
            (\<lambda>idx. item raw (butlast idx @ [min 5 no + last idx]))"
  define r where "r = tabulate [b, na, gh, gw, no - 5]
       (\<lambda>idx. bitem (sigmoid_v cls) idx * bitem (sigmoid_v obj) idx)"
  have so: "slice_last 4 5 raw = Inr obj"
    by (simp add: slice_last5 [OF s] obj_def)
  have m5: "no - min 5 no = no - 5" by (simp add: min_def)
  have sc: "slice_from 5 raw = Inr cls"
    using s by (simp add: slice_from_def slice_last5 [OF s] cls_def m5)
  have sho: "shape (sigmoid_v obj) = [b, na, gh, gw, max (min 4 no) (min 5 no) - min 4 no]"
    by (simp add: sigmoid_v_def obj_def)
  have shc: "shape (sigmoid_v cls) = [b, na, gh, gw, no - 5]"
    by (simp add: sigmoid_v_def cls_def)
  have bs: "bshape (shape (sigmoid_v cls)) (shape (sigmoid_v obj)) = Inr [b, na, gh, gw, no - 5]"
    unfolding sho shc bshape5 by (cases "5 \<le> no") (auto simp: min_def max_def)
  have bo: "np_binop (*) (sigmoid_v cls) (sigmoid_v obj) = Inr r"
    by (simp add: np_binop_def bs r_def)
  have e: "bnd (slice_last 4 5 raw) (\<lambda>obj. let object_probs = sigmoid_v obj in
            bnd (slice_from 5 raw) (\<lambda>cls. let class_probs = sigmoid_v cls in
            bnd (np_binop (*) class_probs object_probs) (\<lambda>ocp. f ocp))) = f r"
    by (simp add: so sc bo)
  have it: "item r [x, a, i, j, c] =
                 sigmoid (item raw [x, a, i, j, 5 + c]) * sigmoid (item raw [x, a, i, j, 4])"
    if x: "x < b" and a: "a < na" and i: "i < gh" and j: "j < gw" and c: "c < no - 5" for x a i j c
  proof -
    have no: "5 < no" using c by simp
    have ib: "in_bounds [b, na, gh, gw, no - 5] [x, a, i, j, c]"
      using that by simp
    have ibo: "in_bounds (shape obj) [x, a, i, j, 0]"
      using that no by (simp add: obj_def)
    have ibc: "in_bounds (shape cls) [x, a, i, j, c]"
      using that no by (simp add: cls_def)
    have 1: "item r [x, a, i, j, c] = bitem (sigmoid_v cls) [x, a, i, j, c] * bitem (sigmoid_v obj) [x, a, i, j, c]"
      unfolding r_def by (rule item_tabulate [OF ib])
    have 2: "bitem (sigmoid_v cls) [x, a, i, j, c] = item (sigmoid_v cls) [x, a, i, j, c]"
      using that by (simp add: bitem5 [OF shc])
    have 3: "bitem (sigmoid_v obj) [x, a, i, j, c] = item (sigmoid_v obj) [x, a, i, j, 0]"
      using that no by (simp add: bitem5 [OF sho] min_def max_def)
    have 4: "item (sigmoid_v cls) [x, a, i, j, c] = sigmoid (item cls [x, a, i, j, c])"
      unfolding sigmoid_v_def using ibc
      by (subst item_np_map) (simp_all add: cls_def sigmoid_def inverse_eq_divide add.commute)
    have 5: "item (sigmoid_v obj) [x, a, i, j, 0] = sigmoid (item obj [x, a, i, j, 0])"
      unfolding sigmoid_v_def using ibo
      by (subst item_np_map) (simp_all add: obj_def sigmoid_def inverse_eq_divide add.commute)
    have 6: "item cls [x, a, i, j, c] = item raw [x, a, i, j, 5 + c]"
      unfolding cls_def using no by (subst item_tabulate [OF ib]) (simp add: min_def)
    have 7: "item obj [x, a, i, j, 0] = item raw [x, a, i, j, 4]"
      unfolding obj_def using no that by (subst item_tabulate) (simp_all add: min_def max_def)
    show ?thesis by (simp only: 1 2 3 4 5 6 7)
  qed
  have "shape r = [b, na, gh, gw, no - 5]" "well_shaped r"
    by (simp_all add: r_def)
  with e it show ?thesis by blast
qed

lemma rank5: "length s = 5 \<Longrightarrow> \<exists>b na gh gw no. s = [b, na, gh, gw, no :: nat]"
  by (auto simp: length_Suc_conv numeral_eq_Suc)

lemma class_grid_body_fused:
  assumes r5: "length (shape raw) = 5" and w: "well_shaped raw"
  shows "\<exists>r. bnd (slice_last 4 5 raw) (\<lambda>obj. let object_probs = sigmoid_v obj in
            bnd (slice_from 5 raw) (\<lambda>cls. let class_probs = sigmoid_v cls in
            bnd (np_binop (*) class_probs object_probs) (\<lambda>ocp. f ocp))) = f r
         \<and> fused raw r"
proof -
  obtain b na gh gw no where s: "shape raw = [b, na, gh, gw, no]"
    using rank5 [OF r5] by blast
  from class_grid_body [OF s w, of f] obtain r where
    e: "bnd (slice_last 4 5 raw) (\<lambda>obj. let object_probs = sigmoid_v obj in
            bnd (slice_from 5 raw) (\<lambda>cls. let class_probs = sigmoid_v cls in
            bnd (np_binop (*) class_probs object_probs) (\<lambda>ocp. f ocp))) = f r"
    and sr: "shape r = [b, na, gh, gw, no - 5]" and wr: "well_shaped r"
    and it: "\<forall>x<b. \<forall>a<na. \<forall>i<gh. \<forall>j<gw. \<forall>c<no - 5.
               item r [x, a, i, j, c] =
                 sigmoid (item raw [x, a, i, j, 5 + c]) * sigmoid (item raw [x, a, i, j, 4])"
    by blast
  have "fused raw r"
    unfolding fused_def s using it sr wr by auto
  with e show ?thesis by blast
qed

lemma extract_class_grids_spec:
  assumes "\<forall>out \<in> set output. out < length h \<and> well_shaped (h ! out) \<and> length (shape (h ! out)) = 5"
  shows "\<exists>class_grids h'. extract_class_grids h output = Inr (class_grids, h')
      \<and> length class_grids = length output
      \<and> length h' = length h + length output
      \<and> take (length h) h' = h
      \<and> (\<forall>l < length output. class_grids ! l = length h + l
             \<and> fused (h ! (output ! l)) (h' ! (length h + l)))"
  using assms
proof (induction "output" arbitrary: h)
  case Nil
  then show ?case by simp
next
  case (Cons out outs)
  let ?f = "\<lambda>ocp. let (r, h1) = alloc h ocp in
     bnd (extract_class_grids h1 outs) (\<lambda>(class_grids, h2). Inr (r # class_grids, h2))"
  from Cons.prems have o: "out < length h" "well_shaped (h ! out)" "length (shape (h ! out)) = 5"
    by simp_all
  from class_grid_body_fused [OF o(3) o(2), of ?f] obtain r where
    e: "extract_class_grids h (out # outs) = ?f r" and q: "fused (h ! out) r"
    by auto
  let ?h1 = "h @ [r]"
  have same: "?h1 ! a = h ! a" if "a < length h" for a
    using that by (simp add: nth_append)
  have "\<forall>out \<in> set outs. out < length ?h1 \<and> well_shaped (?h1 ! out) \<and> length (shape (?h1 ! out)) = 5"
    using Cons.prems by (auto simp: nth_append)
  from Cons.IH [OF this] obtain cg h2 where
    r: "extract_class_grids ?h1 outs = Inr (cg, h2)"
    and lc: "length cg = length outs"
    and lh: "length h2 = length ?h1 + length outs"
    and tk: "take (length ?h1) h2 = ?h1"
    and al: "\<forall>l < length outs. cg ! l = length ?h1 + l
             \<and> fused (?h1 ! (outs ! l)) (h2 ! (length ?h1 + l))"
    by blast
  have res: "extract_class_grids h (out # outs) = Inr (length h # cg, h2)"
    by (subst e) (simp add: alloc_def r)
  have tk2: "take (length h) h2 = h"
  proof -
    have "take (length h) h2 = take (length h) (take (length ?h1) h2)" by simp
    also have "\<dots> = h" by (simp only: tk) simp
    finally show ?thesis .
  qed
  have h2r: "h2 ! length h = r"
  proof -
    have "h2 ! length h = take (length ?h1) h2 ! length h" by simp
    also have "\<dots> = r" by (simp only: tk) simp
    finally show ?thesis .
  qed
  have "(length h # cg) ! l = length h + l
             \<and> fused (h ! ((out # outs) ! l)) (h2 ! (length h + l))"
    if l: "l < length (out # outs)" for l
  proof (cases l)
    case 0
    then show ?thesis using q h2r by simp
  next
    case (Suc l')
    then have l': "l' < length outs" using l by simp
    then have "outs ! l' \<in> set outs" by simp
    then have "outs ! l' < length h" using Cons.prems by simp
    then have eq: "?h1 ! (outs ! l') = h ! (outs ! l')" by (rule same)
    from al l' have "cg ! l' = length ?h1 + l'
        \<and> fused (?h1 ! (outs ! l')) (h2 ! (length ?h1 + l'))" by blast
    with eq Suc show ?thesis by simp
  qed
  with res lc lh tk2 show ?case by simp
qed

text \<open>
  Claim C3: for every raw output tensor and every cell and class \<open>c\<close> of it, the fused class
  score that \<open>extract_class_grids\<close> produces is \<open>sigmoid (raw class c) * sigmoid (raw objectness)\<close>;
  the call returns for every list of five-dimensional tensors.
\<close>

theorem extract_class_grids_fused:
  assumes "\<forall>out \<in> set outs. out < length h \<and> well_shaped (h ! out) \<and> length (shape (h ! out)) = 5"
  shows "\<exists>class_grids h'. extract_class_grids h outs = Inr (class_grids, h')
      \<and> length class_grids = length outs
      \<and> (\<forall>l < length outs. \<forall>x a gy gx c.
            in_bounds (shape (h ! (outs ! l))) [x, a, gy, gx, 5 + c] \<longrightarrow>
            item (h' ! (class_grids ! l)) [x, a, gy, gx, c]
              = sigmoid (item (h ! (outs ! l)) [x, a, gy, gx, 5 + c])
                * sigmoid (item (h ! (outs ! l)) [x, a, gy, gx, 4]))"
proof -
  from extract_class_grids_spec [OF assms] obtain class_grids h' where
    r: "extract_class_grids h outs = Inr (class_grids, h')"
    and lc: "length class_grids = length outs"
    and al: "\<forall>l < length outs. class_grids ! l = length h + l
             \<and> fused (h ! (outs ! l)) (h' ! (length h + l))"
    by blast
  have "item (h' ! (class_grids ! l)) [x, a, gy, gx, c]
              = sigmoid (item (h ! (outs ! l)) [x, a, gy, gx, 5 + c])
                * sigmoid (item (h ! (outs ! l)) [x, a, gy, gx, 4])"
    if "l < length outs" "in_bounds (shape (h ! (outs ! l))) [x, a, gy, gx, 5 + c]"
    for l x a gy gx c
  proof -
    from al that(1) have "class_grids ! l = length h + l"
      and "fused (h ! (outs ! l)) (h' ! (length h + l))" by simp_all
    with that(2) show ?thesis unfolding fused_def by simp
  qed
  with r lc show ?thesis by blast
qed

theorem extract_class_grids_fused_witness:
  "\<exists>class_grids h'. extract_class_grids [\<lparr>shape = [1, 1, 1, 1, 7], data = replicate 7 0\<rparr>] [0]
        = Inr (class_grids, h')
     \<and> item (h' ! (class_grids ! 0)) [0, 0, 0, 0, 1] = 1 / 4"
proof -
  let ?h = "[\<lparr>shape = [1, 1, 1, 1, 7], data = replicate 7 (0::real)\<rparr>]"
  have pre: "\<forall>out \<in> set [0]. out < length ?h \<and> well_shaped (?h ! out)
                \<and> length (shape (?h ! out)) = 5"
    by (simp add: well_shaped_def)
  from extract_class_grids_fused [OF pre] obtain class_grids h' where
    r: "extract_class_grids ?h [0] = Inr (class_grids, h')"
    and al: "\<forall>l < length [0::nat]. \<forall>x a gy gx c.
            in_bounds (shape (?h ! ([0] ! l))) [x, a, gy, gx, 5 + c] \<longrightarrow>
            item (h' ! (class_grids ! l)) [x, a, gy, gx, c]
              = sigmoid (item (?h ! ([0] ! l)) [x, a, gy, gx, 5 + c])
                * sigmoid (item (?h ! ([0] ! l)) [x, a, gy, gx, 4])"
    by blast
  have "item (h' ! (class_grids ! 0)) [0, 0, 0, 0, 1]
      = sigmoid (item (?h ! 0) [0, 0, 0, 0, 5 + 1]) * sigmoid (item (?h ! 0) [0, 0, 0, 0, 4])"
    using al [rule_format, of 0 0 0 0 0 1] by simp
  also have "\<dots> = 1 / 4"
    by (simp add: item_def sigmoid_0)
  finally show ?thesis using r by blast
qed

section \<open>Decoding the boxes\<close>

lemma assign_last5:
  assumes "shape a = [b, na, gh, gw, d]" and "lo \<le> hi" and "hi \<le> d"
    and "bshape [b, na, gh, gw, hi - lo] (shape v) = Inr [b, na, gh, gw, hi - lo]"
  shows "assign_last lo hi a v =
     Inr (tabulate [b, na, gh, gw, d]
            (\<lambda>idx. if lo \<le> last idx \<and> last idx < hi
                   then bitem v (butlast idx @ [last idx - lo]) else item a idx))"
  using assms by (simp add: assign_last_def slice_bounds_def Let_def min_def max_def)

text \<open>The two assignments of the second loop, on the array \<open>o\<close> behind \<open>out\<close>.\<close>

lemma decode_xy:
  fixes stride :: real
  assumes s: "shape o0 = [1, 3, n, n, 85]" and w: "well_shaped o0"
    and g: "make_grid n n = Inr grid"
  shows "\<exists>o1. bnd (slice_last 0 2 o0) (\<lambda>xy.
           bnd (np_binop (+) (np_map (\<lambda>v. v - 0.5) (np_map (\<lambda>v. v * 2) xy)) (np_map real_of_int grid)) (\<lambda>t.
           bnd (assign_last 0 2 o0 (np_map (\<lambda>v. v * stride) t)) f)) = f o1
      \<and> shape o1 = [1, 3, n, n, 85] \<and> well_shaped o1
      \<and> (\<forall>a<3. \<forall>i<n. \<forall>j<n. \<forall>c<85. item o1 [0, a, i, j, c] =
            (if c = 0 then (item o0 [0, a, i, j, 0] * 2 - 0.5 + real j) * stride
             else if c = 1 then (item o0 [0, a, i, j, 1] * 2 - 0.5 + real i) * stride
             else item o0 [0, a, i, j, c]))"
proof -
  define xy where "xy = tabulate [1, 3, n, n, 2] (\<lambda>idx. item o0 (butlast idx @ [0 + last idx]))"
  define m where "m = np_map (\<lambda>v. v - 0.5) (np_map (\<lambda>v::real. v * 2) xy)"
  define gr where "gr = np_map real_of_int grid"
  define t where "t = tabulate [1, 3, n, n, 2] (\<lambda>idx. bitem m idx + bitem gr idx)"
  define v where "v = np_map (\<lambda>v. v * stride) t"
  define o1 where "o1 = tabulate [1, 3, n, n, 85]
            (\<lambda>idx. if 0 \<le> last idx \<and> last idx < 2
                   then bitem v (butlast idx @ [last idx - 0]) else item o0 idx)"
  obtain sg: "shape grid = [1, 1, n, n, 2]" and wg: "well_shaped grid"
    using make_grid_shape [of n n] g by auto
  have sxy: "slice_last 0 2 o0 = Inr xy"
    by (simp add: slice_last5 [OF s] xy_def)
  have shm: "shape m = [1, 3, n, n, 2]" by (simp add: m_def xy_def)
  have shg: "shape gr = [1, 1, n, n, 2]" by (simp add: gr_def sg)
  have bo: "np_binop (+) m gr = Inr t"
    by (simp add: np_binop_def shm shg bshape5 t_def)
  have shv: "shape v = [1, 3, n, n, 2]" by (simp add: v_def t_def)
  have as: "assign_last 0 2 o0 v = Inr o1"
    unfolding o1_def by (rule assign_last5 [OF s]) (simp_all add: shv bshape5)
  have e: "bnd (slice_last 0 2 o0) (\<lambda>xy.
           bnd (np_binop (+) (np_map (\<lambda>v. v - 0.5) (np_map (\<lambda>v. v * 2) xy)) (np_map real_of_int grid)) (\<lambda>t.
           bnd (assign_last 0 2 o0 (np_map (\<lambda>v. v * stride) t)) f)) = f o1"
    using sxy bo as by (simp add: m_def gr_def v_def)
  have it: "item o1 [0, a, i, j, c] =
            (if c = 0 then (item o0 [0, a, i, j, 0] * 2 - 0.5 + real j) * stride
             else if c = 1 then (item o0 [0, a, i, j, 1] * 2 - 0.5 + real i) * stride
             else item o0 [0, a, i, j, c])"
    if a: "a < 3" and i: "i < n" and j: "j < n" and c: "c < 85" for a i j c
  proof -
    have ib: "in_bounds [1, 3, n, n, 85] [0, a, i, j, c]" using that by simp
    have 1: "item o1 [0, a, i, j, c] = (if c < 2 then bitem v [0, a, i, j, c] else item o0 [0, a, i, j, c])"
      unfolding o1_def by (subst item_tabulate [OF ib]) simp
    have inner: "bitem v [0, a, i, j, k] = (item o0 [0, a, i, j, k] * 2 - 0.5 + real_of_int (item grid [0, 0, i, j, k])) * stride"
      if k: "k < 2" for k
    proof -
      have ib2: "in_bounds [1, 3, n, n, 2] [0, a, i, j, k]" using a i j k by simp
      have ibg: "in_bounds (shape grid) [0, 0, i, j, k]" using i j k by (simp add: sg)
      have "bitem v [0, a, i, j, k] = item v [0, a, i, j, k]"
        using a i j k by (simp add: bitem5 [OF shv])
      also have "\<dots> = item t [0, a, i, j, k] * stride"
        unfolding v_def using ib2 by (subst item_np_map) (simp_all add: t_def)
      also have "item t [0, a, i, j, k] = bitem m [0, a, i, j, k] + bitem gr [0, a, i, j, k]"
        unfolding t_def by (rule item_tabulate [OF ib2])
      also have "bitem m [0, a, i, j, k] = item m [0, a, i, j, k]"
        using a i j k by (simp add: bitem5 [OF shm])
      also have "item m [0, a, i, j, k] = item xy [0, a, i, j, k] * 2 - 0.5"
      proof -
        have x: "well_shaped xy" "in_bounds (shape xy) [0, a, i, j, k]"
          using ib2 by (simp_all add: xy_def)
        have "item m [0, a, i, j, k] = item (np_map (\<lambda>v. v * 2) xy) [0, a, i, j, k] - 0.5"
          unfolding m_def using x by (subst item_np_map) simp_all
        also have "item (np_map (\<lambda>v. v * 2) xy) [0, a, i, j, k] = item xy [0, a, i, j, k] * 2"
          using x by (rule item_np_map)
        finally show ?thesis .
      qed
      also have "item xy [0, a, i, j, k] = item o0 [0, a, i, j, k]"
        unfolding xy_def by (subst item_tabulate [OF ib2]) simp
      also have "bitem gr [0, a, i, j, k] = item gr [0, 0, i, j, k]"
        using a i j k by (simp add: bitem5 [OF shg])
      also have "item gr [0, 0, i, j, k] = real_of_int (item grid [0, 0, i, j, k])"
        unfolding gr_def using ibg wg by (subst item_np_map) simp_all
      finally show ?thesis .
    qed
    have g0: "item grid [0, 0, i, j, 0] = int j" and g1: "item grid [0, 0, i, j, 1] = int i"
      using make_grid_square_item [OF i j g] by simp_all
    show ?thesis
    proof (cases "c = 0")
      case True
      then show ?thesis using 1 inner [of 0] g0 by simp
    next
      case False
      show ?thesis
      proof (cases "c = 1")
        case True
        then show ?thesis using 1 inner [of 1] g1 by simp
      next
        case False
        with \<open>c \<noteq> 0\<close> have "\<not> c < 2" by simp
        with False \<open>c \<noteq> 0\<close> 1 show ?thesis by simp
      qed
    qed
  qed
  have "shape o1 = [1, 3, n, n, 85]" "well_shaped o1" by (simp_all add: o1_def)
  with e it show ?thesis by blast
qed

lemma decode_wh:
  assumes s: "shape o1 = [1, 3, n, n, 85]" and w: "well_shaped o1"
    and sa: "shape anchor = [1, 3, 1, 1, 2]"
  shows "\<exists>o2. bnd (slice_last 2 4 o1) (\<lambda>wh.
           bnd (np_binop (*) (np_map (\<lambda>v. v ^ 2) (np_map (\<lambda>v. v * 2) wh)) anchor) (\<lambda>t2.
           bnd (assign_last 2 4 o1 t2) f)) = f o2
      \<and> shape o2 = [1, 3, n, n, 85] \<and> well_shaped o2
      \<and> (\<forall>a<3. \<forall>i<n. \<forall>j<n. \<forall>c<85. item o2 [0, a, i, j, c] =
            (if c = 2 then (item o1 [0, a, i, j, 2] * 2) ^ 2 * item anchor [0, a, 0, 0, 0]
             else if c = 3 then (item o1 [0, a, i, j, 3] * 2) ^ 2 * item anchor [0, a, 0, 0, 1]
             else item o1 [0, a, i, j, c :: nat] :: real))"
proof -
  define wh where "wh = tabulate [1, 3, n, n, 2] (\<lambda>idx. item o1 (butlast idx @ [2 + last idx]))"
  define m where "m = np_map (\<lambda>v. v ^ 2) (np_map (\<lambda>v::real. v * 2) wh)"
  define t2 where "t2 = tabulate [1, 3, n, n, 2] (\<lambda>idx. bitem m idx * bitem anchor idx)"
  define o2 where "o2 = tabulate [1, 3, n, n, 85]
            (\<lambda>idx. if 2 \<le> last idx \<and> last idx < 4
                   then bitem t2 (butlast idx @ [last idx - 2]) else item o1 idx)"
  have swh: "slice_last 2 4 o1 = Inr wh"
    by (simp add: slice_last5 [OF s] wh_def)
  have shm: "shape m = [1, 3, n, n, 2]" by (simp add: m_def wh_def)
  have bo: "np_binop (*) m anchor = Inr t2"
    by (simp add: np_binop_def shm sa bshape5 t2_def)
  have sht: "shape t2 = [1, 3, n, n, 2]" by (simp add: t2_def)
  have as: "assign_last 2 4 o1 t2 = Inr o2"
    unfolding o2_def by (rule assign_last5 [OF s]) (simp_all add: sht bshape5)
  have e: "bnd (slice_last 2 4 o1) (\<lambda>wh.
           bnd (np_binop (*) (np_map (\<lambda>v. v ^ 2) (np_map (\<lambda>v. v * 2) wh)) anchor) (\<lambda>t2.
           bnd (assign_last 2 4 o1 t2) f)) = f o2"
    using swh bo as by (simp add: m_def)
  have it: "item o2 [0, a, i, j, c] =
            (if c = 2 then (item o1 [0, a, i, j, 2] * 2) ^ 2 * item anchor [0, a, 0, 0, 0]
             else if c = 3 then (item o1 [0, a, i, j, 3] * 2) ^ 2 * item anchor [0, a, 0, 0, 1]
             else item o1 [0, a, i, j, c])"
    if a: "a < 3" and i: "i < n" and j: "j < n" and c: "c < 85" for a i j c
  proof -
    have ib: "in_bounds [1, 3, n, n, 85] [0, a, i, j, c]" using that by simp
    have 1: "item o2 [0, a, i, j, c] =
        (if 2 \<le> c \<and> c < 4 then bitem t2 [0, a, i, j, c - 2] else item o1 [0, a, i, j, c])"
      unfolding o2_def by (subst item_tabulate [OF ib]) simp
    have inner: "bitem t2 [0, a, i, j, k] = (item o1 [0, a, i, j, 2 + k] * 2) ^ 2 * item anchor [0, a, 0, 0, k]"
      if k: "k < 2" for k
    proof -
      have ib2: "in_bounds [1, 3, n, n, 2] [0, a, i, j, k]" using a i j k by simp
      have x: "well_shaped wh" "in_bounds (shape wh) [0, a, i, j, k]"
        using ib2 by (simp_all add: wh_def)
      have "bitem t2 [0, a, i, j, k] = item t2 [0, a, i, j, k]"
        using a i j k by (simp add: bitem5 [OF sht])
      also have "\<dots> = bitem m [0, a, i, j, k] * bitem anchor [0, a, i, j, k]"
        unfolding t2_def by (rule item_tabulate [OF ib2])
      also have "bitem m [0, a, i, j, k] = item m [0, a, i, j, k]"
        using a i j k by (simp add: bitem5 [OF shm])
      also have "item m [0, a, i, j, k] = (item (np_map (\<lambda>v. v * 2) wh) [0, a, i, j, k]) ^ 2"
        unfolding m_def using x by (subst item_np_map) simp_all
      also have "item (np_map (\<lambda>v. v * 2) wh) [0, a, i, j, k] = item wh [0, a, i, j, k] * 2"
        using x by (rule item_np_map)
      also have "item wh [0, a, i, j, k] = item o1 [0, a, i, j, 2 + k]"
        unfolding wh_def by (subst item_tabulate [OF ib2]) simp
      also have "bitem anchor [0, a, i, j, k] = item anchor [0, a, 0, 0, k]"
        using a k by (simp add: bitem5 [OF sa])
      finally show ?thesis .
    qed
    show ?thesis
    proof (cases "c = 2")
      case True
      then show ?thesis using 1 inner [of 0] by simp
    next
      case False
      show ?thesis
      proof (cases "c = 3")
        case True
        then show ?thesis using 1 inner [of 1] by simp
      next
        case False
        with \<open>c \<noteq> 2\<close> have "\<not> (2 \<le> c \<and> c < 4)" by arith
        with False \<open>c \<noteq> 2\<close> 1 show ?thesis by simp
      qed
    qed
  qed
  have "shape o2 = [1, 3, n, n, 85]" "well_shaped o2" by (simp_all add: o2_def)
  with e it show ?thesis by blast
qed

text \<open>The loop body of the second loop.\<close>

lemma extract_boxes_scale_spec:
  assumes o: "out < length h" and s: "shape (h ! out) = [1, 3, n, n, 85]" and w: "well_shaped (h ! out)"
    and g: "make_grid n n = Inr grid" and sa: "shape anchor = [1, 3, 1, 1, 2]"
  shows "\<exists>z1 o2. extract_boxes_scale h (out, grid, stride, anchor) = Inr (z1, h[out := o2])
     \<and> shape z1 = [1, 3 * n * n, 85] \<and> well_shaped z1
     \<and> (\<forall>a<3. \<forall>i<n. \<forall>j<n. \<forall>c<85. item z1 [0, (a * n + i) * n + j, c] =
            (if c = 0 then (item (h ! out) [0, a, i, j, 0] * 2 - 0.5 + real j) * stride
             else if c = 1 then (item (h ! out) [0, a, i, j, 1] * 2 - 0.5 + real i) * stride
             else if c = 2 then (item (h ! out) [0, a, i, j, 2] * 2) ^ 2 * item anchor [0, a, 0, 0, 0]
             else if c = 3 then (item (h ! out) [0, a, i, j, 3] * 2) ^ 2 * item anchor [0, a, 0, 0, 1]
             else item (h ! out) [0, a, i, j, c]))"
proof -
  let ?k2 = "\<lambda>o2. let h2 = (h[out := o1'])[out := o2] in
         bnd (np_reshape (h2 ! out) [1, 3 * n * n, 85]) (\<lambda>z1. Inr (z1, h2))"
  let ?o0 = "h ! out"
  let ?k1 = "\<lambda>o1. let h1 = h[out := o1] in
         bnd (slice_last 2 4 (h1 ! out)) (\<lambda>wh.
         bnd (np_binop (*) (np_map (\<lambda>v. v ^ 2) (np_map (\<lambda>v. v * 2) wh)) anchor) (\<lambda>t2.
         bnd (assign_last 2 4 (h1 ! out) t2) (\<lambda>o2.
         let h2 = h1[out := o2] in
         bnd (np_reshape (h2 ! out) [1, 3 * n * n, 85]) (\<lambda>z1.
         Inr (z1, h2)))))"
  have unf: "extract_boxes_scale h (out, grid, stride, anchor) =
       bnd (slice_last 0 2 ?o0) (\<lambda>xy.
         bnd (np_binop (+) (np_map (\<lambda>v. v - 0.5) (np_map (\<lambda>v. v * 2) xy)) (np_map real_of_int grid)) (\<lambda>t.
         bnd (assign_last 0 2 ?o0 (np_map (\<lambda>v. v * stride) t)) ?k1))"
    by (simp add: extract_boxes_scale_def s)
  from decode_xy [OF s w g, of stride ?k1] obtain o1 where
    e1: "extract_boxes_scale h (out, grid, stride, anchor) = ?k1 o1"
    and s1: "shape o1 = [1, 3, n, n, 85]" and w1: "well_shaped o1"
    and i1: "\<forall>a<3. \<forall>i<n. \<forall>j<n. \<forall>c<85. item o1 [0, a, i, j, c] =
            (if c = 0 then (item ?o0 [0, a, i, j, 0] * 2 - 0.5 + real j) * stride
             else if c = 1 then (item ?o0 [0, a, i, j, 1] * 2 - 0.5 + real i) * stride
             else item ?o0 [0, a, i, j, c])"
    unfolding unf by blast
  let ?k2 = "\<lambda>o2. let h2 = (h[out := o1])[out := o2] in
         bnd (np_reshape (h2 ! out) [1, 3 * n * n, 85]) (\<lambda>z1. Inr (z1, h2))"
  have k1: "?k1 o1 = bnd (slice_last 2 4 o1) (\<lambda>wh.
         bnd (np_binop (*) (np_map (\<lambda>v. v ^ 2) (np_map (\<lambda>v. v * 2) wh)) anchor) (\<lambda>t2.
         bnd (assign_last 2 4 o1 t2) ?k2))"
    using o by (simp add: Let_def)
  from decode_wh [OF s1 w1 sa, of ?k2] obtain o2 where
    e2: "?k1 o1 = ?k2 o2"
    and s2: "shape o2 = [1, 3, n, n, 85]" and w2: "well_shaped o2"
    and i2: "\<forall>a<3. \<forall>i<n. \<forall>j<n. \<forall>c<85. item o2 [0, a, i, j, c] =
            (if c = 2 then (item o1 [0, a, i, j, 2] * 2) ^ 2 * item anchor [0, a, 0, 0, 0]
             else if c = 3 then (item o1 [0, a, i, j, 3] * 2) ^ 2 * item anchor [0, a, 0, 0, 1]
             else item o1 [0, a, i, j, c])"
    unfolding k1 by blast
  define z1 where "z1 = o2\<lparr>shape := [1, 3 * n * n, 85]\<rparr>"
  have ld: "length (data o2) = 3 * n * n * 85"
    using w2 s2 by (simp add: well_shaped_def)
  have rs: "np_reshape o2 [1, 3 * n * n, 85] = Inr z1"
    by (simp add: np_reshape_def ld z1_def)
  have res: "extract_boxes_scale h (out, grid, stride, anchor) = Inr (z1, h[out := o2])"
    using o rs by (simp only: e1 e2) (simp add: Let_def)
  have wz: "well_shaped z1" "shape z1 = [1, 3 * n * n, 85]"
    using ld by (simp_all add: z1_def well_shaped_def)
  have iz: "item z1 [0, (a * n + i) * n + j, c] = item o2 [0, a, i, j, c]" for a i j c
    by (simp add: item_def z1_def s2 algebra_simps)
  have "item z1 [0, (a * n + i) * n + j, c] =
            (if c = 0 then (item ?o0 [0, a, i, j, 0] * 2 - 0.5 + real j) * stride
             else if c = 1 then (item ?o0 [0, a, i, j, 1] * 2 - 0.5 + real i) * stride
             else if c = 2 then (item ?o0 [0, a, i, j, 2] * 2) ^ 2 * item anchor [0, a, 0, 0, 0]
             else if c = 3 then (item ?o0 [0, a, i, j, 3] * 2) ^ 2 * item anchor [0, a, 0, 0, 1]
             else item ?o0 [0, a, i, j, c])"
    if a: "a < 3" and i: "i < n" and j: "j < n" and c: "c < 85" for a i j c
  proof -
    have A: "item o2 [0, a, i, j, c] =
            (if c = 2 then (item o1 [0, a, i, j, 2] * 2) ^ 2 * item anchor [0, a, 0, 0, 0]
             else if c = 3 then (item o1 [0, a, i, j, 3] * 2) ^ 2 * item anchor [0, a, 0, 0, 1]
             else item o1 [0, a, i, j, c])"
      using i2 that by blast
    have B: "item o1 [0, a, i, j, c'] =
            (if c' = 0 then (item ?o0 [0, a, i, j, 0] * 2 - 0.5 + real j) * stride
             else if c' = 1 then (item ?o0 [0, a, i, j, 1] * 2 - 0.5 + real i) * stride
             else item ?o0 [0, a, i, j, c'])" if "c' < 85" for c'
      using i1 a i j that by blast
    show ?thesis
      unfolding iz A using B [of 2] B [of 3] B [of c] c
      by (cases "c = 0"; cases "c = 1") simp_all
  qed
  with res wz show ?thesis by blast
qed

lemma extract_boxes_scale_decoded:
  assumes "scale_ok h (out, grid, stride, anchor)"
  shows "\<exists>z1 o2. extract_boxes_scale h (out, grid, stride, anchor) = Inr (z1, h[out := o2])
     \<and> decoded (h ! out) stride anchor z1"
proof -
  from assms obtain n where o: "out < length h" and w: "well_shaped (h ! out)"
    and sa: "shape anchor = [1, 3, 1, 1, 2]" and s: "shape (h ! out) = [1, 3, n, n, 85]"
    and g: "make_grid n n = Inr grid"
    by (auto simp: scale_ok_def)
  from extract_boxes_scale_spec [OF o s w g sa, of stride]
  show ?thesis
    unfolding decoded_def s by (simp add: Let_def)
qed

lemma extract_boxes_decode_spec:
  assumes "distinct (map fst xs)" and "\<forall>x \<in> set xs. scale_ok h x"
  shows "\<exists>z h'. extract_boxes_decode h xs = Inr (z, h')
      \<and> length z = length xs \<and> length h' = length h
      \<and> (\<forall>a. a \<notin> fst ` set xs \<longrightarrow> h' ! a = h ! a)
      \<and> (\<forall>k < length xs. decoded (h ! fst (xs ! k)) (fst (snd (snd (xs ! k))))
                (snd (snd (snd (xs ! k)))) (z ! k))"
  using assms
proof (induction xs arbitrary: h)
  case Nil
  then show ?case by simp
next
  case (Cons x xs)
  obtain out grid stride anchor where x: "x = (out, grid, stride, anchor)"
    by (cases x) auto
  from Cons.prems have ok: "scale_ok h (out, grid, stride, anchor)" by (simp add: x)
  from extract_boxes_scale_decoded [OF ok] obtain z1 o2 where
    e: "extract_boxes_scale h x = Inr (z1, h[out := o2])"
    and d: "decoded (h ! out) stride anchor z1"
    unfolding x by blast
  let ?h1 = "h[out := o2]"
  from Cons.prems have nin: "out \<notin> fst ` set xs" and dist: "distinct (map fst xs)"
    by (simp_all add: x)
  have same: "?h1 ! a = h ! a" if "a \<in> fst ` set xs" for a
    using that nin by (metis nth_list_update_neq)
  have "\<forall>y \<in> set xs. scale_ok ?h1 y"
  proof
    fix y assume y: "y \<in> set xs"
    then have "fst y \<in> fst ` set xs" by simp
    then have "?h1 ! fst y = h ! fst y" by (rule same)
    moreover from y Cons.prems have "scale_ok h y" by simp
    ultimately show "scale_ok ?h1 y"
      by (cases y) (simp add: scale_ok_def)
  qed
  from Cons.IH [OF dist this] obtain z h' where
    r: "extract_boxes_decode ?h1 xs = Inr (z, h')"
    and lz: "length z = length xs" and lh: "length h' = length ?h1"
    and fr: "\<forall>a. a \<notin> fst ` set xs \<longrightarrow> h' ! a = ?h1 ! a"
    and al: "\<forall>k < length xs. decoded (?h1 ! fst (xs ! k)) (fst (snd (snd (xs ! k))))
                (snd (snd (snd (xs ! k)))) (z ! k)"
    by blast
  have res: "extract_boxes_decode h (x # xs) = Inr (z1 # z, h')"
    by (simp add: e r)
  have fr2: "h' ! a = h ! a" if "a \<notin> fst ` set (x # xs)" for a
  proof -
    from that have "a \<noteq> out" "a \<notin> fst ` set xs" by (simp_all add: x)
    then show ?thesis using fr by simp
  qed
  have "decoded (h ! fst ((x # xs) ! k)) (fst (snd (snd ((x # xs) ! k))))
                (snd (snd (snd ((x # xs) ! k)))) ((z1 # z) ! k)"
    if k: "k < length (x # xs)" for k
  proof (cases k)
    case 0
    then show ?thesis using d by (simp add: x)
  next
    case (Suc k')
    then have k': "k' < length xs" using k by simp
    then have "fst (xs ! k') \<in> fst ` set xs" by simp
    then have "?h1 ! fst (xs ! k') = h ! fst (xs ! k')" by (rule same)
    moreover from al k' have "decoded (?h1 ! fst (xs ! k')) (fst (snd (snd (xs ! k'))))
                (snd (snd (snd (xs ! k')))) (z ! k')" by blast
    ultimately show ?thesis using Suc by simp
  qed
  with res lz lh fr2 show ?case by simp
qed

lemma extract_boxes_activate_spec:
  assumes "\<forall>out \<in> set outs. out < length h \<and> length (shape (h ! out)) = 5"
  shows "\<exists>scaled grids. extract_boxes_activate h outs =
        Inr ((scaled, grids), h @ map (\<lambda>out. sigmoid_v (h ! out)) outs)
      \<and> length scaled = length outs \<and> length grids = length outs
      \<and> (\<forall>l < length outs. scaled ! l = length h + l
           \<and> make_grid (shape (h ! (outs ! l)) ! 2) (shape (h ! (outs ! l)) ! 3) = Inr (grids ! l))"
  using assms
proof (induction outs arbitrary: h)
  case Nil
  then show ?case by simp
next
  case (Cons out outs)
  from Cons.prems have o: "out < length h" and r5: "length (shape (h ! out)) = 5" by simp_all
  obtain b na wd ht d where s: "shape (h ! out) = [b, na, wd, ht, d]"
    using rank5 [OF r5] by blast
  obtain grid where g: "make_grid wd ht = Inr grid"
    using make_grid_shape [of wd ht] by blast
  let ?h1 = "h @ [sigmoid_v (h ! out)]"
  have "\<forall>out \<in> set outs. out < length ?h1 \<and> length (shape (?h1 ! out)) = 5"
    using Cons.prems by (auto simp: nth_append)
  from Cons.IH [OF this] obtain scaled grids where
    r: "extract_boxes_activate ?h1 outs =
        Inr ((scaled, grids), ?h1 @ map (\<lambda>out. sigmoid_v (?h1 ! out)) outs)"
    and ls: "length scaled = length outs"
    and lg: "length grids = length outs"
    and mg: "\<forall>l < length outs. scaled ! l = length ?h1 + l
           \<and> make_grid (shape (?h1 ! (outs ! l)) ! 2) (shape (?h1 ! (outs ! l)) ! 3)
             = Inr (grids ! l)"
    by blast
  have mp: "map (\<lambda>out. sigmoid_v (?h1 ! out)) outs = map (\<lambda>out. sigmoid_v (h ! out)) outs"
    using Cons.prems by (auto simp: nth_append)
  have ss: "shape (sigmoid_v (h ! out)) = [b, na, wd, ht, d]"
    by (simp add: sigmoid_v_def s)
  have res: "extract_boxes_activate h (out # outs) =
        Inr ((length h # scaled, grid # grids),
             h @ map (\<lambda>out. sigmoid_v (h ! out)) (out # outs))"
    using r by (simp add: alloc_def ss g mp)
  have "(length h # scaled) ! l = length h + l
      \<and> make_grid (shape (h ! ((out # outs) ! l)) ! 2) (shape (h ! ((out # outs) ! l)) ! 3)
             = Inr ((grid # grids) ! l)" if l: "l < length (out # outs)" for l
  proof (cases l)
    case 0
    then show ?thesis using g s by simp
  next
    case (Suc l')
    then have l': "l' < length outs" using l by simp
    then have "outs ! l' < length h" using Cons.prems by simp
    then have "?h1 ! (outs ! l') = h ! (outs ! l')" by (simp add: nth_append)
    moreover from mg l' have "scaled ! l' = length ?h1 + l'
       \<and> make_grid (shape (?h1 ! (outs ! l')) ! 2) (shape (?h1 ! (outs ! l')) ! 3)
             = Inr (grids ! l')" by blast
    ultimately show ?thesis using Suc by simp
  qed
  with res ls lg show ?case by auto
qed

lemma anchor_grid_simps:
  "length anchor_grid = 3" "length strides = 3"
  "l < 3 \<Longrightarrow> shape (anchor_grid ! l) = [1, 3, 1, 1, 2]"
  by (auto simp: anchor_grid_def anchors_def strides_def less_Suc_eq numeral_3_eq_3)

lemma anchor_grid_item:
  assumes "l < 3" "a < 3" "k < 2"
  shows "item (anchor_grid ! l) [0, a, 0, 0, k] = anchors ! l ! a ! k"
proof -
  from assms have "l = 0 \<or> l = 1 \<or> l = 2" "a = 0 \<or> a = 1 \<or> a = 2" "k = 0 \<or> k = 1"
    by auto
  then show ?thesis
    by (elim disjE) (simp_all add: anchor_grid_def anchors_def item_def)
qed

lemma anchors_nonneg:
  assumes "l < 3" "a < 3" "k < 2"
  shows "0 \<le> anchors ! l ! a ! k"
proof -
  from assms have "l = 0 \<or> l = 1 \<or> l = 2" "a = 0 \<or> a = 1 \<or> a = 2" "k = 0 \<or> k = 1"
    by auto
  then show ?thesis
    by (elim disjE) (simp_all add: anchors_def)
qed

lemma item_sigmoid_v:
  "well_shaped a \<Longrightarrow> in_bounds (shape a) idx \<Longrightarrow> item (sigmoid_v a) idx = sigmoid (item a idx)"
  unfolding sigmoid_v_def
  by (subst item_np_map) (simp_all add: sigmoid_def inverse_eq_divide add.commute)

lemma shape_sigmoid_v [simp]: "shape (sigmoid_v a) = shape a"
  by (simp add: sigmoid_v_def)

lemma well_shaped_sigmoid_v [simp]: "well_shaped (sigmoid_v a) = well_shaped a"
  by (simp add: sigmoid_v_def)

lemma extract_boxes_z_spec:
  assumes A: "\<forall>out \<in> set outs. out < length h \<and> well_shaped (h ! out)
                \<and> (\<exists>n. shape (h ! out) = [1, 3, n, n, 85])"
  shows "\<exists>z h'. extract_boxes_z h outs = Inr (z, h') \<and> length z = min (length outs) 3
      \<and> (\<forall>l < length z. decoded (sigmoid_v (h ! (outs ! l))) (strides ! l) (anchor_grid ! l) (z ! l))"
proof -
  let ?h1 = "h @ map (\<lambda>out. sigmoid_v (h ! out)) outs"
  have r5: "\<forall>out \<in> set outs. out < length h \<and> length (shape (h ! out)) = 5"
    using A by auto
  from extract_boxes_activate_spec [OF r5] obtain scaled grids where
    act: "extract_boxes_activate h outs = Inr ((scaled, grids), ?h1)"
    and ls: "length scaled = length outs" and lg: "length grids = length outs"
    and sg: "\<forall>l < length outs. scaled ! l = length h + l
           \<and> make_grid (shape (h ! (outs ! l)) ! 2) (shape (h ! (outs ! l)) ! 3) = Inr (grids ! l)"
    by blast
  define xs where "xs = zip scaled (zip grids (zip strides anchor_grid))"
  have lx: "length xs = min (length outs) 3"
    by (simp add: xs_def ls lg anchor_grid_simps)
  have xk: "xs ! k = (length h + k, grids ! k, strides ! k, anchor_grid ! k)"
    if "k < length xs" for k
    using that sg by (simp add: xs_def ls lg anchor_grid_simps)
  have fk: "fst (xs ! k) = length h + k" if "k < length xs" for k
    using xk [OF that] by simp
  have dist: "distinct (map fst xs)"
    by (auto simp: distinct_conv_nth fk)
  have h1k: "?h1 ! (length h + k) = sigmoid_v (h ! (outs ! k))" if "k < length outs" for k
    using that by (simp add: nth_append)
  have ok: "\<forall>x \<in> set xs. scale_ok ?h1 x"
  proof
    fix x assume "x \<in> set xs"
    then obtain k where k: "k < length xs" and x: "x = xs ! k"
      by (auto simp: in_set_conv_nth)
    from k lx have ko: "k < length outs" and k3: "k < 3" by simp_all
    from ko have "outs ! k \<in> set outs" by simp
    with A obtain n where w: "well_shaped (h ! (outs ! k))"
      and s: "shape (h ! (outs ! k)) = [1, 3, n, n, 85]" by blast
    from sg ko s have g: "make_grid n n = Inr (grids ! k)" by auto
    show "scale_ok ?h1 x"
      unfolding x xk [OF k] scale_ok_def
      using ko k3 w s g by (simp add: h1k anchor_grid_simps)
  qed
  from extract_boxes_decode_spec [OF dist ok] obtain z h' where
    dec: "extract_boxes_decode ?h1 xs = Inr (z, h')"
    and lz: "length z = length xs"
    and al: "\<forall>k < length xs. decoded (?h1 ! fst (xs ! k)) (fst (snd (snd (xs ! k))))
                (snd (snd (snd (xs ! k)))) (z ! k)"
    by blast
  have res: "extract_boxes_z h outs = Inr (z, h')"
    using dec by (simp add: extract_boxes_z_def act xs_def)
  have "decoded (sigmoid_v (h ! (outs ! l))) (strides ! l) (anchor_grid ! l) (z ! l)"
    if l: "l < length z" for l
  proof -
    from l lz have k: "l < length xs" by simp
    with lx have ko: "l < length outs" by simp
    from al k have "decoded (?h1 ! fst (xs ! l)) (fst (snd (snd (xs ! l))))
                (snd (snd (snd (xs ! l)))) (z ! l)" by blast
    then show ?thesis
      using ko by (simp add: xk [OF k] h1k [OF ko])
  qed
  with res lz lx show ?thesis by auto
qed

text \<open>
  Claim C1: for every scale (the first three tensors of the list), every anchor \<open>a\<close> and every
  grid cell, row \<open>gy\<close> and column \<open>gx\<close>, the row of \<open>z\<close> that \<open>extract_boxes\<close> decodes for the
  cell holds \<open>cx = (sigmoid tx * 2 - 0.5 + gx) * stride\<close>, \<open>cy = (sigmoid ty * 2 - 0.5 + gy) * stride\<close>,
  \<open>w = (sigmoid tw * 2)\<^sup>2 * anchor_w\<close> and \<open>h = (sigmoid th * 2)\<^sup>2 * anchor_h\<close>, each raw value
  going through the sigmoid once. The tensors have the shape \<open>(1, 3, n, n, 85)\<close> of the
  engine's outputs, and the two loops return for every such list.
\<close>

theorem extract_boxes_decodes:
  assumes "\<forall>out \<in> set outs. out < length h \<and> well_shaped (h ! out)
                \<and> (\<exists>n. shape (h ! out) = [1, 3, n, n, 85])"
  shows "\<exists>z h'. extract_boxes_z h outs = Inr (z, h') \<and> length z = min (length outs) 3
     \<and> (\<forall>l < length z. \<forall>a < 3. \<forall>gy < shape (h ! (outs ! l)) ! 2. \<forall>gx < shape (h ! (outs ! l)) ! 3.
          let raw = h ! (outs ! l); n = shape raw ! 2; cell = (a * n + gy) * n + gx in
            item (z ! l) [0, cell, 0]
               = (sigmoid (item raw [0, a, gy, gx, 0]) * 2 - 0.5 + real gx) * strides ! l
          \<and> item (z ! l) [0, cell, 1]
               = (sigmoid (item raw [0, a, gy, gx, 1]) * 2 - 0.5 + real gy) * strides ! l
          \<and> item (z ! l) [0, cell, 2]
               = (sigmoid (item raw [0, a, gy, gx, 2]) * 2) ^ 2 * anchors ! l ! a ! 0
          \<and> item (z ! l) [0, cell, 3]
               = (sigmoid (item raw [0, a, gy, gx, 3]) * 2) ^ 2 * anchors ! l ! a ! 1)"
proof -
  from extract_boxes_z_spec [OF assms] obtain z h' where
    res: "extract_boxes_z h outs = Inr (z, h')" and lz: "length z = min (length outs) 3"
    and al: "\<forall>l < length z. decoded (sigmoid_v (h ! (outs ! l))) (strides ! l) (anchor_grid ! l) (z ! l)"
    by blast
  have "let raw = h ! (outs ! l); n = shape raw ! 2; cell = (a * n + gy) * n + gx in
            item (z ! l) [0, cell, 0]
               = (sigmoid (item raw [0, a, gy, gx, 0]) * 2 - 0.5 + real gx) * strides ! l
          \<and> item (z ! l) [0, cell, 1]
               = (sigmoid (item raw [0, a, gy, gx, 1]) * 2 - 0.5 + real gy) * strides ! l
          \<and> item (z ! l) [0, cell, 2]
               = (sigmoid (item raw [0, a, gy, gx, 2]) * 2) ^ 2 * anchors ! l ! a ! 0
          \<and> item (z ! l) [0, cell, 3]
               = (sigmoid (item raw [0, a, gy, gx, 3]) * 2) ^ 2 * anchors ! l ! a ! 1"
    if l: "l < length z" and a: "a < 3" and gy: "gy < shape (h ! (outs ! l)) ! 2"
      and gx: "gx < shape (h ! (outs ! l)) ! 3" for l a gy gx
  proof -
    let ?raw = "h ! (outs ! l)"
    from l lz have lo: "l < length outs" and l3: "l < 3" by simp_all
    then have "outs ! l \<in> set outs" by simp
    with assms obtain n where w: "well_shaped ?raw" and s: "shape ?raw = [1, 3, n, n, 85]"
      by blast
    from gy gx s have gy': "gy < n" and gx': "gx < n" by simp_all
    from al l have d: "decoded (sigmoid_v ?raw) (strides ! l) (anchor_grid ! l) (z ! l)"
      by blast
    have D: "item (z ! l) [0, (a * n + gy) * n + gx, c] =
            (if c = 0 then (item (sigmoid_v ?raw) [0, a, gy, gx, 0] * 2 - 0.5 + real gx) * strides ! l
             else if c = 1 then (item (sigmoid_v ?raw) [0, a, gy, gx, 1] * 2 - 0.5 + real gy) * strides ! l
             else if c = 2 then (item (sigmoid_v ?raw) [0, a, gy, gx, 2] * 2) ^ 2 * item (anchor_grid ! l) [0, a, 0, 0, 0]
             else if c = 3 then (item (sigmoid_v ?raw) [0, a, gy, gx, 3] * 2) ^ 2 * item (anchor_grid ! l) [0, a, 0, 0, 1]
             else item (sigmoid_v ?raw) [0, a, gy, gx, c])" if "c < 85" for c
      using d a gy' gx' that unfolding decoded_def by (simp add: s Let_def)
    have S: "item (sigmoid_v ?raw) [0, a, gy, gx, c] = sigmoid (item ?raw [0, a, gy, gx, c])"
      if "c < 85" for c
      using w a gy' gx' that by (intro item_sigmoid_v) (simp_all add: s)
    show ?thesis
      using D [of 0] D [of 1] D [of 2] D [of 3] S [of 0] S [of 1] S [of 2] S [of 3]
        anchor_grid_item [OF l3 a, of 0] anchor_grid_item [OF l3 a, of 1]
      by (simp add: s Let_def)
  qed
  with res lz show ?thesis by blast
qed

theorem extract_boxes_decodes_witness:
  "\<exists>z h'. extract_boxes_z [\<lparr>shape = [1, 3, 1, 1, 85], data = replicate 255 0\<rparr>] [0] = Inr (z, h')
     \<and> item (z ! 0) [0, 1, 0] = 4 \<and> item (z ! 0) [0, 1, 1] = 4
     \<and> item (z ! 0) [0, 1, 2] = 16 \<and> item (z ! 0) [0, 1, 3] = 30"
proof -
  let ?h = "[\<lparr>shape = [1, 3, 1, 1, 85], data = replicate 255 (0::real)\<rparr>]"
  have pre: "\<forall>out \<in> set [0]. out < length ?h \<and> well_shaped (?h ! out)
                \<and> (\<exists>n. shape (?h ! out) = [1, 3, n, n, 85])"
    by (simp add: well_shaped_def)
  from extract_boxes_decodes [OF pre] obtain z h' where
    r: "extract_boxes_z ?h [0] = Inr (z, h')" and lz: "length z = min (length [0::nat]) 3"
    and al: "\<forall>l < length z. \<forall>a < 3. \<forall>gy < shape (?h ! ([0] ! l)) ! 2. \<forall>gx < shape (?h ! ([0] ! l)) ! 3.
          let raw = ?h ! ([0] ! l); n = shape raw ! 2; cell = (a * n + gy) * n + gx in
            item (z ! l) [0, cell, 0]
               = (sigmoid (item raw [0, a, gy, gx, 0]) * 2 - 0.5 + real gx) * strides ! l
          \<and> item (z ! l) [0, cell, 1]
               = (sigmoid (item raw [0, a, gy, gx, 1]) * 2 - 0.5 + real gy) * strides ! l
          \<and> item (z ! l) [0, cell, 2]
               = (sigmoid (item raw [0, a, gy, gx, 2]) * 2) ^ 2 * anchors ! l ! a ! 0
          \<and> item (z ! l) [0, cell, 3]
               = (sigmoid (item raw [0, a, gy, gx, 3]) * 2) ^ 2 * anchors ! l ! a ! 1"
    by blast
  have l0: "0 < length z" using lz by simp
  from al [rule_format, OF l0, of 1 0 0]
  have "item (z ! 0) [0, 1, 0] = 4 \<and> item (z ! 0) [0, 1, 1] = 4
     \<and> item (z ! 0) [0, 1, 2] = 16 \<and> item (z ! 0) [0, 1, 3] = 30"
    by (simp add: Let_def item_def sigmoid_0 strides_def anchors_def power2_eq_square)
  with r show ?thesis by blast
qed

section \<open>Filtering and corner conversion\<close>

lemma in_bounds_unravel: "k < prod_list s \<Longrightarrow> in_bounds s (unravel s k)"
proof (induction s arbitrary: k)
  case Nil
  then show ?case by simp
next
  case (Cons d ds)
  then have p: "0 < prod_list ds" by (cases "prod_list ds = 0") simp_all
  from Cons.prems have "k < d * prod_list ds" by simp
  then have "k div prod_list ds < d" by (rule less_mult_imp_div_less)
  moreover have "k mod prod_list ds < prod_list ds" using p by simp
  ultimately show ?case using Cons.IH by simp
qed

lemma ravel_unravel: "k < prod_list s \<Longrightarrow> ravel s (unravel s k) = k"
proof (induction s arbitrary: k)
  case Nil
  then show ?case by simp
next
  case (Cons d ds)
  then have p: "0 < prod_list ds" by (cases "prod_list ds = 0") simp_all
  then have "k mod prod_list ds < prod_list ds" by simp
  with Cons.IH show ?case by simp
qed

lemma in_bounds_length: "in_bounds s idx \<Longrightarrow> length idx = length s"
  by (induction s idx rule: in_bounds.induct) simp_all

lemma data_nth_item:
  "well_shaped a \<Longrightarrow> k < length (data a) \<Longrightarrow> data a ! k = item a (unravel (shape a) k)"
  by (simp add: item_def well_shaped_def ravel_unravel)

lemma concat_nth_uniform:
  "\<forall>r \<in> set rs. length r = w \<Longrightarrow> k < length rs \<Longrightarrow> c < w \<Longrightarrow>
     concat rs ! (k * w + c) = rs ! k ! c"
proof (induction rs arbitrary: k)
  case Nil
  then show ?case by simp
next
  case (Cons r rs)
  show ?case
  proof (cases k)
    case 0
    then show ?thesis using Cons.prems by (simp add: nth_append)
  next
    case (Suc k')
    then have "concat rs ! (k' * w + c) = rs ! k' ! c"
      using Cons.prems by (intro Cons.IH) simp_all
    moreover have "(r @ concat rs) ! (k * w + c) = concat rs ! (k' * w + c)"
      using Cons.prems Suc by (simp add: nth_append)
    ultimately show ?thesis using Suc by simp
  qed
qed

lemma length_concat_uniform:
  "\<forall>r \<in> set rs. length r = w \<Longrightarrow> length (concat rs) = length rs * w"
  by (induction rs) simp_all

lemma block_nth:
  assumes "length d = n * w" "i < n" "c < w"
  shows "length (take w (drop (i * w) d)) = w" "take w (drop (i * w) d) ! c = d ! (i * w + c)"
proof -
  have "Suc i * w \<le> n * w" using assms(2) by (intro mult_le_mono1) simp
  then have "i * w + w \<le> length d" using assms(1) by simp
  then show "length (take w (drop (i * w) d)) = w" by simp
  show "take w (drop (i * w) d) ! c = d ! (i * w + c)"
    using assms(3) \<open>i * w + w \<le> length d\<close> by simp
qed

lemma mask_filter:
  "map snd (filter fst (zip (map p xs) (map b xs))) = map b (filter p xs)"
  by (induction xs) simp_all

lemma mask_filter_length:
  "length (filter fst (zip (map p xs) (map b xs))) = length (filter p xs)"
  by (induction xs) simp_all

text \<open>The statements of extract_boxes after the two loops, on the concatenated array.\<close>

lemma extract_boxes_tail:
  assumes sp: "shape pred0 = [1, N, 85]" and wp: "well_shaped pred0"
    and kp: "kept = filter (\<lambda>r. conf_thres < item pred0 [0, r, 4]) [0..<N]"
  shows "\<exists>boxes. bnd (select_last 4 pred0) (\<lambda>obj.
            let xc = np_map (\<lambda>v. v > conf_thres) obj in
            bnd (np_mask pred0 xc) (\<lambda>pred.
            bnd (slice_last 0 4 pred) (\<lambda>xywh.
            bnd (xywh2xyxy xywh) (\<lambda>boxes. f boxes)))) = f boxes
     \<and> shape boxes = [length kept, 4] \<and> well_shaped boxes
     \<and> (\<forall>k < length kept.
          item boxes [k, 0] = item pred0 [0, kept ! k, 0] - item pred0 [0, kept ! k, 2] / 2
        \<and> item boxes [k, 1] = item pred0 [0, kept ! k, 1] - item pred0 [0, kept ! k, 3] / 2
        \<and> item boxes [k, 2] = item pred0 [0, kept ! k, 0] + item pred0 [0, kept ! k, 2] / 2
        \<and> item boxes [k, 3] = item pred0 [0, kept ! k, 1] + item pred0 [0, kept ! k, 3] / 2)"
proof -
  let ?K = "length kept"
  define obj where "obj = tabulate [1, N] (\<lambda>idx. item pred0 (idx @ [4]))"
  define xc where "xc = np_map (\<lambda>v. v > conf_thres) obj"
  define B where "B = (\<lambda>i. take 85 (drop (i * 85) (data pred0)))"
  define pred where "pred = \<lparr>shape = [?K, 85], data = concat (map B kept)\<rparr>"
  define xywh where "xywh = tabulate [?K, 4] (\<lambda>idx. item pred (butlast idx @ [0 + last idx]))"
  define boxes where "boxes = tabulate [?K, 4]
             (\<lambda>idx. if idx ! 1 = 0 then item xywh (idx[1 := 0]) - item xywh (idx[1 := 2]) / 2
                    else if idx ! 1 = 1 then item xywh (idx[1 := 1]) - item xywh (idx[1 := 3]) / 2
                    else if idx ! 1 = 2 then item xywh (idx[1 := 0]) + item xywh (idx[1 := 2]) / 2
                    else if idx ! 1 = 3 then item xywh (idx[1 := 1]) + item xywh (idx[1 := 3]) / 2
                    else 0)"
  have ld: "length (data pred0) = N * 85"
    using wp sp by (simp add: well_shaped_def)
  have so: "select_last 4 pred0 = Inr obj"
    by (simp add: select_last_def sp obj_def)
  have dxc: "data xc = map (\<lambda>r. conf_thres < item pred0 [0, r, 4]) [0..<N]"
    by (simp add: xc_def np_map_def obj_def tabulate_def)
  have sxc: "shape xc = [1, N]" by (simp add: xc_def obj_def)
  have mk: "np_mask pred0 xc = Inr pred"
    by (simp add: np_mask_def sp sxc dxc Let_def pred_def kp B_def [abs_def] mask_filter mask_filter_length)
  have sx: "slice_last 0 4 pred = Inr xywh"
    by (simp add: slice_last_def slice_bounds_def pred_def xywh_def)
  have shx: "shape xywh = [?K, 4]" by (simp add: xywh_def)
  have xb: "xywh2xyxy xywh = Inr boxes"
    by (simp add: xywh2xyxy_def shx boxes_def)
  have e: "bnd (select_last 4 pred0) (\<lambda>obj.
            let xc = np_map (\<lambda>v. v > conf_thres) obj in
            bnd (np_mask pred0 xc) (\<lambda>pred.
            bnd (slice_last 0 4 pred) (\<lambda>xywh.
            bnd (xywh2xyxy xywh) (\<lambda>boxes. f boxes)))) = f boxes"
    using mk by (simp add: so Let_def xc_def sx xb)
  have kN: "kept ! k < N" if "k < ?K" for k
  proof -
    from that have "kept ! k \<in> set kept" by simp
    then show ?thesis by (simp add: kp)
  qed
  have rows: "\<forall>r \<in> set (map B kept). length r = 85"
    using ld by (auto simp: B_def kp block_nth(1))
  have ip: "item pred [k, c] = item pred0 [0, kept ! k, c]" if k: "k < ?K" and c: "c < 85" for k c
  proof -
    have "item pred [k, c] = concat (map B kept) ! (k * 85 + c)"
      by (simp add: item_def pred_def)
    also have "\<dots> = map B kept ! k ! c"
      using rows k c by (intro concat_nth_uniform) simp_all
    also have "\<dots> = data pred0 ! (kept ! k * 85 + c)"
      using k c ld kN [OF k] by (simp add: B_def block_nth(2))
    also have "\<dots> = item pred0 [0, kept ! k, c]"
      by (simp add: item_def sp)
    finally show ?thesis .
  qed
  have ix: "item xywh [k, c] = item pred0 [0, kept ! k, c]" if k: "k < ?K" and c: "c < 4" for k c
  proof -
    have "in_bounds [?K, 4] [k, c]" using k c by simp
    then have "item xywh [k, c] = item pred [k, c]"
      unfolding xywh_def by (subst item_tabulate) simp_all
    then show ?thesis using ip [OF k, of c] c by simp
  qed
  have ib: "item boxes [k, 0] = item pred0 [0, kept ! k, 0] - item pred0 [0, kept ! k, 2] / 2
        \<and> item boxes [k, 1] = item pred0 [0, kept ! k, 1] - item pred0 [0, kept ! k, 3] / 2
        \<and> item boxes [k, 2] = item pred0 [0, kept ! k, 0] + item pred0 [0, kept ! k, 2] / 2
        \<and> item boxes [k, 3] = item pred0 [0, kept ! k, 1] + item pred0 [0, kept ! k, 3] / 2"
    if k: "k < ?K" for k
  proof -
    have b: "in_bounds [?K, 4] [k, c]" if "c < 4" for c using k that by simp
    have 0: "item boxes [k, 0] = item xywh [k, 0] - item xywh [k, 2] / 2"
      unfolding boxes_def by (subst item_tabulate [OF b]) simp_all
    have 1: "item boxes [k, 1] = item xywh [k, 1] - item xywh [k, 3] / 2"
      unfolding boxes_def by (subst item_tabulate [OF b]) simp_all
    have 2: "item boxes [k, 2] = item xywh [k, 0] + item xywh [k, 2] / 2"
      unfolding boxes_def by (subst item_tabulate [OF b]) simp_all
    have 3: "item boxes [k, 3] = item xywh [k, 1] + item xywh [k, 3] / 2"
      unfolding boxes_def by (subst item_tabulate [OF b]) simp_all
    show ?thesis
      unfolding 0 1 2 3 using ix [OF k, of 0] ix [OF k, of 1] ix [OF k, of 2] ix [OF k, of 3]
      by simp
  qed
  have "shape boxes = [?K, 4]" "well_shaped boxes" by (simp_all add: boxes_def)
  with e ib show ?thesis by blast
qed

lemma sigmoid_bounds: "0 < sigmoid x" "sigmoid x < 1"
proof -
  have e: "0 < exp (- x)" by simp
  then have p: "0 < 1 + exp (- x)" by (simp add: add_pos_pos)
  show "0 < sigmoid x" using p by (simp add: sigmoid_def)
  have "1 / (1 + exp (- x)) < 1 / 1"
    using e p by (intro divide_strict_left_mono) simp_all
  then show "sigmoid x < 1" by (simp add: sigmoid_def)
qed

lemma mod_row: "c < w \<Longrightarrow> (m * w + c) mod w = (c::nat)"
  by simp

text \<open>Every row of a decoded array has a width and a height that are not negative.\<close>

lemma decoded_rows:
  assumes d: "decoded o0 stride anchor z" and s: "shape o0 = [1, 3, n, n, 85]"
    and an: "\<forall>a<3. \<forall>k<2. 0 \<le> item anchor [0, a, 0, 0, k]"
    and k: "k < length (data z)"
  shows "(k mod 85 = 2 \<or> k mod 85 = 3 \<longrightarrow> 0 \<le> data z ! k)
       \<and> (k mod 85 = 4 \<longrightarrow> data z ! k = item o0 (unravel [1, 3, n, n, 85] k))"
proof -
  from d s have sz: "shape z = [1, 3 * n * n, 85]" and wz: "well_shaped z"
    and it: "\<forall>a<3. \<forall>i<n. \<forall>j<n. \<forall>c<85. item z [0, (a * n + i) * n + j, c] =
            (if c = 0 then (item o0 [0, a, i, j, 0] * 2 - 0.5 + real j) * stride
             else if c = 1 then (item o0 [0, a, i, j, 1] * 2 - 0.5 + real i) * stride
             else if c = 2 then (item o0 [0, a, i, j, 2] * 2) ^ 2 * item anchor [0, a, 0, 0, 0]
             else if c = 3 then (item o0 [0, a, i, j, 3] * 2) ^ 2 * item anchor [0, a, 0, 0, 1]
             else item o0 [0, a, i, j, c])"
    by (simp_all add: decoded_def Let_def)
  from k wz sz have kb: "k < prod_list [1, 3, n, n, 85]"
    by (simp add: well_shaped_def mult.assoc)
  obtain x a i j c where u: "unravel [1, 3, n, n, 85] k = [x, a, i, j, c]"
    by simp
  have "in_bounds [1, 3, n, n, 85] [x, a, i, j, c]"
    using in_bounds_unravel [OF kb] unfolding u .
  then have b: "x < 1" "a < 3" "i < n" "j < n" "c < 85"
    by simp_all
  have rk: "ravel [1, 3, n, n, 85] [x, a, i, j, c] = k"
    using ravel_unravel [OF kb] unfolding u .
  then have ke: "k = ((a * n + i) * n + j) * 85 + c"
    using b by (simp add: algebra_simps)
  have c: "k mod 85 = c" unfolding ke using b(5) by (rule mod_row)
  have "item z [0, (a * n + i) * n + j, c] = data z ! k"
    by (simp add: item_def sz ke)
  then have v: "data z ! k =
            (if c = 0 then (item o0 [0, a, i, j, 0] * 2 - 0.5 + real j) * stride
             else if c = 1 then (item o0 [0, a, i, j, 1] * 2 - 0.5 + real i) * stride
             else if c = 2 then (item o0 [0, a, i, j, 2] * 2) ^ 2 * item anchor [0, a, 0, 0, 0]
             else if c = 3 then (item o0 [0, a, i, j, 3] * 2) ^ 2 * item anchor [0, a, 0, 0, 1]
             else item o0 [0, a, i, j, c])"
    using it b by simp
  have a0: "0 \<le> item anchor [0, a, 0, 0, 0]" and a1: "0 \<le> item anchor [0, a, 0, 0, 1]"
    using an b by simp_all
  have "0 \<le> data z ! k" if "c = 2 \<or> c = 3"
    using that v a0 a1 by auto
  moreover have "data z ! k = item o0 [x, a, i, j, c]" if "c = 4"
    using that v b by simp
  ultimately show ?thesis using c u by simp
qed

lemma concat_mod:
  assumes "\<forall>d \<in> set ds. w dvd length d \<and> (\<forall>k < length d. Q (k mod w) (d ! k))"
    and "k < length (concat ds)"
  shows "Q (k mod w) (concat ds ! k)"
  using assms
proof (induction ds arbitrary: k)
  case Nil
  then show ?case by simp
next
  case (Cons d ds)
  show ?case
  proof (cases "k < length d")
    case True
    then show ?thesis using Cons.prems by (simp add: nth_append)
  next
    case False
    from Cons.prems obtain m where m: "length d = w * m" by (auto simp: dvd_def)
    let ?k = "k - length d"
    have "k = ?k + w * m" using False m by simp
    then have "k mod w = (?k + w * m) mod w" by simp
    also have "\<dots> = ?k mod w" by simp
    finally have km: "k mod w = ?k mod w" .
    have "?k < length (concat ds)" using Cons.prems False by simp
    then have "Q (?k mod w) (concat ds ! ?k)"
      using Cons.prems by (intro Cons.IH) simp_all
    then show ?thesis using False km by (simp add: nth_append)
  qed
qed

lemma concatenate1_rows:
  assumes ne: "zs \<noteq> []" and sh: "\<forall>z \<in> set zs. well_shaped z \<and> (\<exists>N. shape z = [1, N, 85])"
  shows "\<exists>pred N. concatenate1 zs = Inr pred \<and> shape pred = [1, N, 85] \<and> well_shaped pred
            \<and> data pred = concat (map data zs)"
proof -
  obtain z0 zs' where zs: "zs = z0 # zs'" using ne by (cases zs) auto
  have c: "\<forall>a \<in> set zs. 2 \<le> length (shape a) \<and> length (shape a) = length (shape z0)
                \<and> hd (shape a) = hd (shape z0) \<and> drop 2 (shape a) = drop 2 (shape z0)"
    using sh zs by fastforce
  have h0: "hd (shape z0) = 1" "drop 2 (shape z0) = [85]" using sh zs by auto
  have blk: "take (axis1_block a) (data a) = data a" if "a \<in> set zs" for a
  proof -
    from sh that obtain N where "well_shaped a" "shape a = [1, N, 85]" by blast
    then show ?thesis by (simp add: axis1_block_def well_shaped_def)
  qed
  define pred where "pred = \<lparr>shape = [1, sum_list (map (\<lambda>a. shape a ! 1) zs), 85],
                              data = concat (map data zs)\<rparr>"
  have "concatenate1 zs = Inr pred"
    using c blk by (simp add: concatenate1_def zs h0 pred_def cong: map_cong)
  moreover have "well_shaped pred"
  proof -
    have "length (concat (map data ys)) = sum_list (map (\<lambda>a. shape a ! 1) ys) * 85"
      if "set ys \<subseteq> set zs" for ys
      using that
    proof (induction ys)
      case Nil
      then show ?case by simp
    next
      case (Cons y ys)
      then have "y \<in> set zs" by simp
      with sh obtain N where "well_shaped y" "shape y = [1, N, 85]" by blast
      then have "length (data y) = N * 85" "shape y ! 1 = N" by (simp_all add: well_shaped_def)
      with Cons show ?case by (simp add: algebra_simps)
    qed
    then show ?thesis by (simp add: well_shaped_def pred_def)
  qed
  ultimately show ?thesis by (auto simp: pred_def)
qed

text \<open>The concatenated array of candidates, for tensors of the engine's shape.\<close>

lemma extract_boxes_pred:
  assumes A: "\<forall>out \<in> set outs. out < length h \<and> well_shaped (h ! out)
                \<and> (\<exists>n. shape (h ! out) = [1, 3, n, n, 85])"
    and ne: "outs \<noteq> []"
  shows "\<exists>z h' pred N. extract_boxes_z h outs = Inr (z, h') \<and> concatenate1 z = Inr pred
      \<and> shape pred = [1, N, 85] \<and> well_shaped pred
      \<and> (\<forall>r < N. 0 \<le> item pred [0, r, 2] \<and> 0 \<le> item pred [0, r, 3])"
proof -
  from extract_boxes_z_spec [OF A] obtain z h' where
    res: "extract_boxes_z h outs = Inr (z, h')" and lz: "length z = min (length outs) 3"
    and al: "\<forall>l < length z. decoded (sigmoid_v (h ! (outs ! l))) (strides ! l) (anchor_grid ! l) (z ! l)"
    by blast
  from ne lz have zne: "z \<noteq> []" by (cases outs) auto
  let ?Q = "\<lambda>c v. (c = 2 \<or> c = 3) \<longrightarrow> (0::real) \<le> v"
  have zl: "well_shaped (z ! l) \<and> (\<exists>N. shape (z ! l) = [1, N, 85])
      \<and> 85 dvd length (data (z ! l)) \<and> (\<forall>k < length (data (z ! l)). ?Q (k mod 85) (data (z ! l) ! k))"
    if l: "l < length z" for l
  proof -
    from l lz have lo: "l < length outs" and l3: "l < 3" by simp_all
    then have "outs ! l \<in> set outs" by simp
    with A obtain n where s: "shape (h ! (outs ! l)) = [1, 3, n, n, 85]" by blast
    from al l have d: "decoded (sigmoid_v (h ! (outs ! l))) (strides ! l) (anchor_grid ! l) (z ! l)"
      by blast
    have ss: "shape (sigmoid_v (h ! (outs ! l))) = [1, 3, n, n, 85]" by (simp add: s)
    from d ss have sz: "shape (z ! l) = [1, 3 * n * n, 85]" and wz: "well_shaped (z ! l)"
      by (simp_all add: decoded_def Let_def)
    then have len: "length (data (z ! l)) = 3 * n * n * 85" by (simp add: well_shaped_def)
    have an: "\<forall>a<3. \<forall>k<2. 0 \<le> item (anchor_grid ! l) [0, a, 0, 0, k]"
      using l3 by (simp add: anchor_grid_item anchors_nonneg)
    have "?Q (k mod 85) (data (z ! l) ! k)" if "k < length (data (z ! l))" for k
      using decoded_rows [OF d ss an that] by blast
    with sz wz len show ?thesis by simp
  qed
  have sh: "\<forall>a \<in> set z. well_shaped a \<and> (\<exists>N. shape a = [1, N, 85])"
    using zl by (auto simp: in_set_conv_nth)
  from concatenate1_rows [OF zne sh] obtain pred N where
    c: "concatenate1 z = Inr pred" and sp: "shape pred = [1, N, 85]" and wp: "well_shaped pred"
    and dp: "data pred = concat (map data z)"
    by blast
  have q: "\<forall>d \<in> set (map data z). 85 dvd length d \<and> (\<forall>k < length d. ?Q (k mod 85) (d ! k))"
    using zl by (auto simp: in_set_conv_nth)
  have lp: "length (data pred) = N * 85" using wp sp by (simp add: well_shaped_def)
  have "0 \<le> item pred [0, r, 2] \<and> 0 \<le> item pred [0, r, 3]" if r: "r < N" for r
  proof -
    have "Suc r * 85 \<le> N * 85" using r by (intro mult_le_mono1) simp
    then have b: "r * 85 + 2 < length (concat (map data z))" "r * 85 + 3 < length (concat (map data z))"
      using lp dp by simp_all
    have m2: "(r * 85 + 2) mod 85 = 2" and m3: "(r * 85 + 3) mod 85 = 3"
      by (rule mod_row, simp)+
    have "?Q ((r * 85 + 2) mod 85) (concat (map data z) ! (r * 85 + 2))"
      using q b(1) by (rule concat_mod)
    then have 2: "0 \<le> concat (map data z) ! (r * 85 + 2)"
      unfolding m2 by blast
    have "?Q ((r * 85 + 3) mod 85) (concat (map data z) ! (r * 85 + 3))"
      using q b(2) by (rule concat_mod)
    then have 3: "0 \<le> concat (map data z) ! (r * 85 + 3)"
      unfolding m3 by blast
    have "item pred [0, r, c] = concat (map data z) ! (r * 85 + c)" for c
      by (simp add: item_def sp dp)
    with 2 3 show ?thesis by (simp only:)
  qed
  with res c sp wp show ?thesis by blast
qed

lemma extract_boxes_boxes:
  assumes A: "\<forall>out \<in> set outs. out < length h \<and> well_shaped (h ! out)
                \<and> (\<exists>n. shape (h ! out) = [1, 3, n, n, 85])"
    and ne: "outs \<noteq> []"
  shows "\<exists>boxes h' K. extract_boxes h outs conf_thres = Inr (boxes, h') \<and> shape boxes = [K, 4]
      \<and> (\<forall>k < K. item boxes [k, 0] \<le> item boxes [k, 2] \<and> item boxes [k, 1] \<le> item boxes [k, 3])"
proof -
  from extract_boxes_pred [OF A ne] obtain z h' pred N where
    res: "extract_boxes_z h outs = Inr (z, h')" and c: "concatenate1 z = Inr pred"
    and sp: "shape pred = [1, N, 85]" and wp: "well_shaped pred"
    and nn: "\<forall>r < N. 0 \<le> item pred [0, r, 2] \<and> 0 \<le> item pred [0, r, 3]"
    by blast
  define kept where "kept = filter (\<lambda>r. conf_thres < item pred [0, r, 4]) [0..<N]"
  from extract_boxes_tail [OF sp wp kept_def, of "\<lambda>boxes. Inr (boxes, h')"] obtain boxes where
    e: "bnd (select_last 4 pred) (\<lambda>obj.
            let xc = np_map (\<lambda>v. v > conf_thres) obj in
            bnd (np_mask pred xc) (\<lambda>pred.
            bnd (slice_last 0 4 pred) (\<lambda>xywh.
            bnd (xywh2xyxy xywh) (\<lambda>boxes. Inr (boxes, h'))))) = Inr (boxes, h')"
    and sb: "shape boxes = [length kept, 4]"
    and ib: "\<forall>k < length kept.
          item boxes [k, 0] = item pred [0, kept ! k, 0] - item pred [0, kept ! k, 2] / 2
        \<and> item boxes [k, 1] = item pred [0, kept ! k, 1] - item pred [0, kept ! k, 3] / 2
        \<and> item boxes [k, 2] = item pred [0, kept ! k, 0] + item pred [0, kept ! k, 2] / 2
        \<and> item boxes [k, 3] = item pred [0, kept ! k, 1] + item pred [0, kept ! k, 3] / 2"
    by blast
  have r: "extract_boxes h outs conf_thres = Inr (boxes, h')"
    using e by (simp add: extract_boxes_def res c)
  have "item boxes [k, 0] \<le> item boxes [k, 2] \<and> item boxes [k, 1] \<le> item boxes [k, 3]"
    if k: "k < length kept" for k
  proof -
    from k have "kept ! k \<in> set kept" by simp
    then have "kept ! k < N" by (simp add: kept_def)
    with nn have "0 \<le> item pred [0, kept ! k, 2]" "0 \<le> item pred [0, kept ! k, 3]" by simp_all
    with ib k show ?thesis by simp
  qed
  with r sb show ?thesis by blast
qed

lemma fused_range:
  assumes f: "fused raw r" and r5: "length (shape raw) = 5" and s: "s \<in> set (data r)"
  shows "0 \<le> s \<and> s \<le> 1"
proof -
  obtain b na gh gw no where sr: "shape raw = [b, na, gh, gw, no]"
    using rank5 [OF r5] by blast
  from f sr have w: "well_shaped r" and shr: "shape r = [b, na, gh, gw, no - 5]"
    and it: "\<forall>x a i j c. in_bounds [b, na, gh, gw, no] [x, a, i, j, 5 + c] \<longrightarrow>
            item r [x, a, i, j, c]
              = sigmoid (item raw [x, a, i, j, 5 + c]) * sigmoid (item raw [x, a, i, j, 4])"
    by (simp_all add: fused_def)
  from s obtain k where k: "k < length (data r)" and sk: "s = data r ! k"
    by (auto simp: in_set_conv_nth)
  from k w shr have kb: "k < prod_list [b, na, gh, gw, no - 5]" by (simp add: well_shaped_def)
  obtain x a i j c where u: "unravel [b, na, gh, gw, no - 5] k = [x, a, i, j, c]"
    by simp
  have "in_bounds [b, na, gh, gw, no - 5] [x, a, i, j, c]"
    using in_bounds_unravel [OF kb] unfolding u .
  then have "in_bounds [b, na, gh, gw, no] [x, a, i, j, 5 + c]" by auto
  with it have "item r [x, a, i, j, c]
              = sigmoid (item raw [x, a, i, j, 5 + c]) * sigmoid (item raw [x, a, i, j, 4])"
    by blast
  moreover have "data r ! k = item r [x, a, i, j, c]"
    using data_nth_item [OF w k] unfolding shr u .
  ultimately have v: "s = sigmoid (item raw [x, a, i, j, 5 + c]) * sigmoid (item raw [x, a, i, j, 4])"
    using sk by simp
  have "0 < sigmoid t \<and> sigmoid t < 1" for t by (simp add: sigmoid_bounds)
  then have "0 \<le> sigmoid t1 * sigmoid t2 \<and> sigmoid t1 * sigmoid t2 \<le> 1" for t1 t2
    by (metis less_eq_real_def mult_le_one mult_nonneg_nonneg)
  then show ?thesis unfolding v by blast
qed

text \<open>
  Claim C5: every box that \<open>extract_boxes\<close> returns (decoding followed by \<open>xywh2xyxy\<close>) has
  \<open>x1 \<le> x2\<close> and \<open>y1 \<le> y2\<close>, and every fused class score that \<open>extract_class_grids\<close>
  produces lies in \<open>[0, 1]\<close>. Both calls return for every non-empty list of tensors of the
  engine's shape.
\<close>

theorem decoded_boxes_invariant:
  assumes A: "\<forall>out \<in> set outs. out < length h \<and> well_shaped (h ! out)
                \<and> (\<exists>n. shape (h ! out) = [1, 3, n, n, 85])"
    and ne: "outs \<noteq> []"
  shows "(\<exists>boxes h' K. extract_boxes h outs conf_thres = Inr (boxes, h') \<and> shape boxes = [K, 4]
            \<and> (\<forall>k < K. item boxes [k, 0] \<le> item boxes [k, 2] \<and> item boxes [k, 1] \<le> item boxes [k, 3]))
       \<and> (\<exists>class_grids h'. extract_class_grids h outs = Inr (class_grids, h')
            \<and> (\<forall>l < length outs. \<forall>s \<in> set (data (h' ! (class_grids ! l))). 0 \<le> s \<and> s \<le> 1))"
proof
  show "\<exists>boxes h' K. extract_boxes h outs conf_thres = Inr (boxes, h') \<and> shape boxes = [K, 4]
            \<and> (\<forall>k < K. item boxes [k, 0] \<le> item boxes [k, 2] \<and> item boxes [k, 1] \<le> item boxes [k, 3])"
    using A ne by (rule extract_boxes_boxes)
  have r5: "\<forall>out \<in> set outs. out < length h \<and> well_shaped (h ! out) \<and> length (shape (h ! out)) = 5"
    using A by auto
  from extract_class_grids_spec [OF r5] obtain class_grids h' where
    r: "extract_class_grids h outs = Inr (class_grids, h')"
    and al: "\<forall>l < length outs. class_grids ! l = length h + l
             \<and> fused (h ! (outs ! l)) (h' ! (length h + l))"
    by blast
  have "0 \<le> s \<and> s \<le> 1" if l: "l < length outs" and s: "s \<in> set (data (h' ! (class_grids ! l)))"
    for l s
  proof -
    from al l have c: "class_grids ! l = length h + l"
      and f: "fused (h ! (outs ! l)) (h' ! (length h + l))" by simp_all
    from l have "outs ! l \<in> set outs" by simp
    with r5 have "length (shape (h ! (outs ! l))) = 5" by blast
    from fused_range [OF f this] s c show ?thesis by simp
  qed
  with r show "\<exists>class_grids h'. extract_class_grids h outs = Inr (class_grids, h')
            \<and> (\<forall>l < length outs. \<forall>s \<in> set (data (h' ! (class_grids ! l))). 0 \<le> s \<and> s \<le> 1)"
    by blast
qed

theorem decoded_boxes_invariant_witness:
  "(\<exists>boxes h' K. extract_boxes [\<lparr>shape = [1, 3, 1, 1, 85], data = replicate 255 0\<rparr>] [0] (1 / 4)
         = Inr (boxes, h') \<and> shape boxes = [K, 4])
   \<and> (\<exists>class_grids h'. extract_class_grids [\<lparr>shape = [1, 3, 1, 1, 85], data = replicate 255 0\<rparr>] [0]
         = Inr (class_grids, h'))"
proof -
  let ?h = "[\<lparr>shape = [1, 3, 1, 1, 85], data = replicate 255 (0::real)\<rparr>]"
  have pre: "\<forall>out \<in> set [0]. out < length ?h \<and> well_shaped (?h ! out)
                \<and> (\<exists>n. shape (?h ! out) = [1, 3, n, n, 85])"
    by (simp add: well_shaped_def)
  have ne: "[0::nat] \<noteq> []" by simp
  from decoded_boxes_invariant [OF pre ne, of "1 / 4"] show ?thesis by blast
qed

section \<open>The input tensors are left as they were\<close>

lemma extract_class_grids_frame:
  "extract_class_grids h outs = Inr (cg, h') \<Longrightarrow> length h \<le> length h' \<and> take (length h) h' = h"
proof (induction outs arbitrary: h cg h')
  case Nil
  then show ?case by simp
next
  case (Cons out outs)
  from Cons.prems obtain ocp cg' where
    r: "extract_class_grids (h @ [ocp]) outs = Inr (cg', h')"
    by (auto simp: bnd_eq_Inr alloc_def Let_def)
  from Cons.IH [OF r] have l: "length (h @ [ocp]) \<le> length h'"
    and t: "take (length (h @ [ocp])) h' = h @ [ocp]" by simp_all
  have "take (length h) h' = take (length h) (take (length (h @ [ocp])) h')" by simp
  also have "\<dots> = h" by (simp only: t) simp
  finally show ?case using l by simp
qed

lemma extract_boxes_activate_frame:
  "extract_boxes_activate h outs = Inr ((scaled, grids), h1) \<Longrightarrow>
     length h \<le> length h1 \<and> take (length h) h1 = h \<and> (\<forall>r \<in> set scaled. length h \<le> r)"
proof (induction outs arbitrary: h scaled grids h1)
  case Nil
  then show ?case by simp
next
  case (Cons out outs)
  let ?h1 = "h @ [sigmoid_v (h ! out)]"
  from Cons.prems obtain scaled' grids' where
    r: "extract_boxes_activate ?h1 outs = Inr ((scaled', grids'), h1)"
    and sc: "scaled = length h # scaled'"
    by (auto simp: bnd_eq_Inr alloc_def Let_def split: list.splits)
  from Cons.IH [OF r] have l: "length ?h1 \<le> length h1"
    and t: "take (length ?h1) h1 = ?h1" and f: "\<forall>r \<in> set scaled'. length ?h1 \<le> r" by simp_all
  have "take (length h) h1 = take (length h) (take (length ?h1) h1)" by simp
  also have "\<dots> = h" by (simp only: t) simp
  finally show ?case using l f sc by auto
qed

lemma extract_boxes_scale_frame:
  "extract_boxes_scale h (out, grid, stride, anchor) = Inr (z1, h') \<Longrightarrow>
     length h' = length h \<and> (\<forall>r. r \<noteq> out \<longrightarrow> h' ! r = h ! r)"
  by (auto simp: extract_boxes_scale_def bnd_eq_Inr Let_def split: list.splits)

lemma extract_boxes_decode_frame:
  "extract_boxes_decode h xs = Inr (z, h') \<Longrightarrow>
     length h' = length h \<and> (\<forall>r. r \<notin> fst ` set xs \<longrightarrow> h' ! r = h ! r)"
proof (induction xs arbitrary: h z h')
  case Nil
  then show ?case by simp
next
  case (Cons x xs)
  obtain out grid stride anchor where x: "x = (out, grid, stride, anchor)"
    by (cases x) auto
  from Cons.prems obtain z1 h1 z' where
    s: "extract_boxes_scale h (out, grid, stride, anchor) = Inr (z1, h1)"
    and r: "extract_boxes_decode h1 xs = Inr (z', h')"
    by (auto simp: bnd_eq_Inr x)
  from extract_boxes_scale_frame [OF s] Cons.IH [OF r] show ?case
    by (auto simp: x)
qed

lemma extract_boxes_frame:
  assumes "extract_boxes h outs conf_thres = Inr (boxes, h')"
  shows "length h \<le> length h' \<and> (\<forall>r < length h. h' ! r = h ! r)"
proof -
  from assms obtain z where z: "extract_boxes_z h outs = Inr (z, h')"
    by (auto simp: extract_boxes_def bnd_eq_Inr Let_def)
  then obtain scaled grids h1 where
    a: "extract_boxes_activate h outs = Inr ((scaled, grids), h1)"
    and d: "extract_boxes_decode h1 (zip scaled (zip grids (zip strides anchor_grid))) = Inr (z, h')"
    by (auto simp: extract_boxes_z_def bnd_eq_Inr)
  from extract_boxes_activate_frame [OF a] have l: "length h \<le> length h1"
    and t: "take (length h) h1 = h" and f: "\<forall>r \<in> set scaled. length h \<le> r" by simp_all
  from extract_boxes_decode_frame [OF d] have l2: "length h' = length h1"
    and g: "\<forall>r. r \<notin> fst ` set (zip scaled (zip grids (zip strides anchor_grid))) \<longrightarrow> h' ! r = h1 ! r"
    by simp_all
  have "h' ! r = h ! r" if r: "r < length h" for r
  proof -
    have "r \<notin> set scaled" using f r by auto
    then have "r \<notin> fst ` set (zip scaled (zip grids (zip strides anchor_grid)))"
      by (auto dest: set_zip_leftD)
    with g have "h' ! r = h1 ! r" by blast
    also have "\<dots> = take (length h) h1 ! r" using r by simp
    also have "\<dots> = h ! r" by (simp only: t)
    finally show ?thesis .
  qed
  with l l2 show ?thesis by simp
qed

text \<open>
  Claim C9: when \<open>extract_boxes\<close> or \<open>extract_class_grids\<close> returns, every array that existed
  before the call, so every tensor of the input list, holds the values it held before; the
  calls only add arrays.
\<close>

theorem decoding_keeps_inputs:
  "(extract_boxes h outs conf_thres = Inr (boxes, h') \<longrightarrow>
      length h \<le> length h' \<and> (\<forall>r < length h. h' ! r = h ! r))
   \<and> (extract_class_grids h outs = Inr (class_grids, h'') \<longrightarrow>
      length h \<le> length h'' \<and> (\<forall>r < length h. h'' ! r = h ! r))"
proof (intro conjI impI)
  assume "extract_boxes h outs conf_thres = Inr (boxes, h')"
  from extract_boxes_frame [OF this]
  show "length h \<le> length h'" "\<forall>r < length h. h' ! r = h ! r" by simp_all
next
  assume "extract_class_grids h outs = Inr (class_grids, h'')"
  from extract_class_grids_frame [OF this] have l: "length h \<le> length h''"
    and t: "take (length h) h'' = h" by simp_all
  show "length h \<le> length h''" by (rule l)
  show "\<forall>r < length h. h'' ! r = h ! r"
  proof (intro allI impI)
    fix r assume "r < length h"
    then have "h'' ! r = take (length h) h'' ! r" by simp
    then show "h'' ! r = h ! r" by (simp only: t)
  qed
qed

theorem decoding_keeps_inputs_witness:
  "\<exists>boxes h' class_grids h''.
      extract_boxes [\<lparr>shape = [1, 3, 1, 1, 85], data = replicate 255 0\<rparr>] [0] (1 / 4) = Inr (boxes, h')
    \<and> h' ! 0 = \<lparr>shape = [1, 3, 1, 1, 85], data = replicate 255 0\<rparr>
    \<and> extract_class_grids [\<lparr>shape = [1, 3, 1, 1, 85], data = replicate 255 0\<rparr>] [0] = Inr (class_grids, h'')
    \<and> h'' ! 0 = \<lparr>shape = [1, 3, 1, 1, 85], data = replicate 255 0\<rparr>"
proof -
  let ?h = "[\<lparr>shape = [1, 3, 1, 1, 85], data = replicate 255 (0::real)\<rparr>]"
  have pre: "\<forall>out \<in> set [0]. out < length ?h \<and> well_shaped (?h ! out)
                \<and> (\<exists>n. shape (?h ! out) = [1, 3, n, n, 85])"
    by (simp add: well_shaped_def)
  have ne: "[0::nat] \<noteq> []" by simp
  from extract_boxes_boxes [OF pre ne, of "1 / 4"] obtain boxes h' where
    b: "extract_boxes ?h [0] (1 / 4) = Inr (boxes, h')" by blast
  have r5: "\<forall>out \<in> set [0]. out < length ?h \<and> well_shaped (?h ! out)
                \<and> length (shape (?h ! out)) = 5"
    by (simp add: well_shaped_def)
  from extract_class_grids_spec [OF r5] obtain class_grids h'' where
    c: "extract_class_grids ?h [0] = Inr (class_grids, h'')" by blast
  from decoding_keeps_inputs [of ?h "[0]" "1 / 4" boxes h' class_grids h''] b c
  have "h' ! 0 = ?h ! 0" "h'' ! 0 = ?h ! 0" by simp_all
  with b c show ?thesis by auto
qed

section \<open>The confidence filter\<close>

lemma concat_length_eq:
  assumes "length ds = length es" and "\<forall>l < length ds. length (ds ! l) = length (es ! l)"
  shows "length (concat ds) = length (concat es)"
  using assms
proof (induction ds es rule: list_induct2)
  case Nil
  then show ?case by simp
next
  case (Cons d ds e es)
  from Cons.prems [rule_format, of 0] have "length d = length e" by simp
  moreover have "\<forall>l < length ds. length (ds ! l) = length (es ! l)"
    using Cons.prems by fastforce
  ultimately show ?case using Cons.IH by simp
qed

lemma concat_mod2:
  assumes "length ds = length es"
    and "\<forall>l < length ds. length (ds ! l) = length (es ! l) \<and> w dvd length (ds ! l)
           \<and> (\<forall>k < length (ds ! l). Q (k mod w) (ds ! l ! k) (es ! l ! k))"
    and "k < length (concat ds)"
  shows "Q (k mod w) (concat ds ! k) (concat es ! k)"
  using assms
proof (induction ds es arbitrary: k rule: list_induct2)
  case Nil
  then show ?case by simp
next
  case (Cons d ds e es)
  from Cons.prems(1) [rule_format, of 0]
  have all0: "length d = length e \<and> w dvd length d \<and> (\<forall>k < length d. Q (k mod w) (d ! k) (e ! k))"
    by auto
  then have ld: "length d = length e" and dv: "w dvd length d"
    and q0: "\<forall>k < length d. Q (k mod w) (d ! k) (e ! k)" by blast+
  have rest: "\<forall>l < length ds. length (ds ! l) = length (es ! l) \<and> w dvd length (ds ! l)
           \<and> (\<forall>k < length (ds ! l). Q (k mod w) (ds ! l ! k) (es ! l ! k))"
    using Cons.prems(1) by fastforce
  show ?case
  proof (cases "k < length d")
    case True
    then show ?thesis using q0 ld by (simp add: nth_append)
  next
    case False
    from dv obtain m where m: "length d = w * m" by (auto simp: dvd_def)
    let ?k = "k - length d"
    have "k = ?k + w * m" using False m by simp
    then have "k mod w = (?k + w * m) mod w" by simp
    also have "\<dots> = ?k mod w" by simp
    finally have km: "k mod w = ?k mod w" .
    have "?k < length (concat ds)" using Cons.prems(2) False by simp
    from Cons.IH [OF rest this] have "Q (?k mod w) (concat ds ! ?k) (concat es ! ?k)" .
    then show ?thesis using False km ld by (simp add: nth_append)
  qed
qed

text \<open>The objectness of every candidate is the sigmoid of the raw value at the same place.\<close>

lemma extract_boxes_objectness:
  assumes A: "\<forall>out \<in> set outs. out < length h \<and> well_shaped (h ! out)
                \<and> (\<exists>n. shape (h ! out) = [1, 3, n, n, 85])"
    and res: "extract_boxes_z h outs = Inr (z, h')" and c: "concatenate1 z = Inr pred"
    and sp: "shape pred = [1, N, 85]"
    and ra: "raw_all = concat (map (\<lambda>out. data (h ! out)) (take 3 outs))"
  shows "length raw_all = N * 85 \<and> (\<forall>r < N. item pred [0, r, 4] = sigmoid (raw_all ! (r * 85 + 4)))"
proof -
  from extract_boxes_z_spec [OF A] res have lz: "length z = min (length outs) 3"
    and al: "\<forall>l < length z. decoded (sigmoid_v (h ! (outs ! l))) (strides ! l) (anchor_grid ! l) (z ! l)"
    by auto
  let ?Q = "\<lambda>c v w. c = 4 \<longrightarrow> v = sigmoid w"
  let ?ds = "map data z" and ?es = "map (\<lambda>out. data (h ! out)) (take 3 outs)"
  have le: "length ?ds = length ?es" using lz by simp
  have zl: "well_shaped (z ! l) \<and> (\<exists>N. shape (z ! l) = [1, N, 85])
      \<and> length (?ds ! l) = length (?es ! l) \<and> 85 dvd length (?ds ! l)
      \<and> (\<forall>k < length (?ds ! l). ?Q (k mod 85) (?ds ! l ! k) (?es ! l ! k))"
    if l: "l < length z" for l
  proof -
    let ?raw = "h ! (outs ! l)"
    from l lz have lo: "l < length outs" and l3: "l < 3" by simp_all
    then have "outs ! l \<in> set outs" by simp
    with A obtain n where s: "shape ?raw = [1, 3, n, n, 85]" and w: "well_shaped ?raw" by blast
    from al l have d: "decoded (sigmoid_v ?raw) (strides ! l) (anchor_grid ! l) (z ! l)"
      by blast
    have ss: "shape (sigmoid_v ?raw) = [1, 3, n, n, 85]" by (simp add: s)
    from d ss have sz: "shape (z ! l) = [1, 3 * n * n, 85]" and wz: "well_shaped (z ! l)"
      by (simp_all add: decoded_def Let_def)
    then have len: "length (data (z ! l)) = 3 * n * n * 85" by (simp add: well_shaped_def)
    from w s have lenr: "length (data ?raw) = 3 * n * n * 85"
      by (simp add: well_shaped_def algebra_simps)
    have an: "\<forall>a<3. \<forall>k<2. 0 \<le> item (anchor_grid ! l) [0, a, 0, 0, k]"
      using l3 by (simp add: anchor_grid_item anchors_nonneg)
    have el: "?es ! l = data ?raw" using lo l3 by simp
    have "data (z ! l) ! k = sigmoid (data ?raw ! k)"
      if k: "k < length (data (z ! l))" and k4: "k mod 85 = 4" for k
    proof -
      from k len have kb: "k < prod_list [1, 3, n, n, 85]" by (simp add: algebra_simps)
      have ib: "in_bounds (shape ?raw) (unravel [1, 3, n, n, 85] k)"
        unfolding s using kb by (rule in_bounds_unravel)
      from decoded_rows [OF d ss an k] k4
      have "data (z ! l) ! k = item (sigmoid_v ?raw) (unravel [1, 3, n, n, 85] k)" by blast
      also have "\<dots> = sigmoid (item ?raw (unravel [1, 3, n, n, 85] k))"
        using w ib by (rule item_sigmoid_v)
      also have "item ?raw (unravel [1, 3, n, n, 85] k) = data ?raw ! k"
        unfolding item_def s by (simp only: ravel_unravel [OF kb])
      finally show ?thesis .
    qed
    with sz wz len lenr el l show ?thesis by simp
  qed
  have sh: "\<forall>a \<in> set z. well_shaped a \<and> (\<exists>N. shape a = [1, N, 85])"
    using zl by (auto simp: in_set_conv_nth)
  have zne: "z \<noteq> []" using c by (auto simp: concatenate1_def)
  from concatenate1_rows [OF zne sh] c sp have wp: "well_shaped pred"
    and dp: "data pred = concat ?ds" by auto
  have lp: "length (data pred) = N * 85" using wp sp by (simp add: well_shaped_def)
  have q: "\<forall>l < length ?ds. length (?ds ! l) = length (?es ! l) \<and> 85 dvd length (?ds ! l)
           \<and> (\<forall>k < length (?ds ! l). ?Q (k mod 85) (?ds ! l ! k) (?es ! l ! k))"
  proof (intro allI impI)
    fix l assume "l < length ?ds"
    then have "l < length z" by simp
    from zl [OF this]
    show "length (?ds ! l) = length (?es ! l) \<and> 85 dvd length (?ds ! l)
           \<and> (\<forall>k < length (?ds ! l). ?Q (k mod 85) (?ds ! l ! k) (?es ! l ! k))"
      by blast
  qed
  have "length (concat ?ds) = length (concat ?es)"
    using le q by (intro concat_length_eq) blast+
  then have lr: "length raw_all = N * 85" using lp dp ra by simp
  have "item pred [0, r, 4] = sigmoid (raw_all ! (r * 85 + 4))" if r: "r < N" for r
  proof -
    have "Suc r * 85 \<le> N * 85" using r by (intro mult_le_mono1) simp
    then have b: "r * 85 + 4 < length (concat ?ds)" using lp dp by simp
    have m4: "(r * 85 + 4) mod 85 = 4" by (rule mod_row) simp
    have "?Q ((r * 85 + 4) mod 85) (concat ?ds ! (r * 85 + 4)) (concat ?es ! (r * 85 + 4))"
      using le q b by (rule concat_mod2)
    then have "concat ?ds ! (r * 85 + 4) = sigmoid (concat ?es ! (r * 85 + 4))"
      unfolding m4 by blast
    moreover have "item pred [0, r, 4] = concat ?ds ! (r * 85 + 4)"
      by (simp add: item_def sp dp)
    ultimately show ?thesis by (simp only: ra)
  qed
  with lr show ?thesis by blast
qed

text \<open>
  The confidence filter of \<open>extract_boxes\<close>: the boxes returned are those of the candidates
  whose activated objectness is greater than \<open>conf_thres\<close>.
\<close>

lemma extract_boxes_keeps:
  assumes A: "\<forall>out \<in> set outs. out < length h \<and> well_shaped (h ! out)
                \<and> (\<exists>n. shape (h ! out) = [1, 3, n, n, 85])"
    and ne: "outs \<noteq> []"
    and ra: "raw_all = concat (map (\<lambda>out. data (h ! out)) (take 3 outs))"
  shows "\<exists>boxes h'. extract_boxes h outs conf_thres = Inr (boxes, h')
     \<and> shape boxes = [length (filter (\<lambda>r. conf_thres < sigmoid (raw_all ! (r * 85 + 4)))
                                  [0..<length raw_all div 85]), 4]
     \<and> well_shaped boxes"
proof -
  from extract_boxes_pred [OF A ne] obtain z h' pred N where
    res: "extract_boxes_z h outs = Inr (z, h')" and c: "concatenate1 z = Inr pred"
    and sp: "shape pred = [1, N, 85]" and wp: "well_shaped pred"
    by blast
  from extract_boxes_objectness [OF A res c sp ra] have lr: "length raw_all = N * 85"
    and ob: "\<forall>r < N. item pred [0, r, 4] = sigmoid (raw_all ! (r * 85 + 4))" by simp_all
  define kept where "kept = filter (\<lambda>r. conf_thres < item pred [0, r, 4]) [0..<N]"
  have ke: "kept = filter (\<lambda>r. conf_thres < sigmoid (raw_all ! (r * 85 + 4))) [0..<length raw_all div 85]"
    unfolding kept_def using ob lr by (auto intro: filter_cong)
  from extract_boxes_tail [OF sp wp kept_def, of "\<lambda>boxes. Inr (boxes, h')"] obtain boxes where
    e: "bnd (select_last 4 pred) (\<lambda>obj.
            let xc = np_map (\<lambda>v. v > conf_thres) obj in
            bnd (np_mask pred xc) (\<lambda>pred.
            bnd (slice_last 0 4 pred) (\<lambda>xywh.
            bnd (xywh2xyxy xywh) (\<lambda>boxes. Inr (boxes, h'))))) = Inr (boxes, h')"
    and sb: "shape boxes = [length kept, 4]" and wb: "well_shaped boxes"
    by blast
  have r: "extract_boxes h outs conf_thres = Inr (boxes, h')"
    using e by (simp add: extract_boxes_def res c)
  with sb wb ke show ?thesis by auto
qed

section \<open>Reshaping the outputs\<close>

lemma reshape_outputs_Inr:
  "reshape_outputs xs = Inr rs \<longleftrightarrow>
     (\<forall>x \<in> set xs. prod_list (snd x) = length (data (fst x)))
     \<and> rs = map (\<lambda>x. (fst x)\<lparr>shape := snd x\<rparr>) xs"
proof (induction xs arbitrary: rs)
  case Nil
  show ?case by auto
next
  case (Cons x xs)
  obtain a s where x: "x = (a, s)" by (cases x)
  show ?case
    unfolding x by (auto simp: bnd_eq_Inr np_reshape_def Cons.IH)
qed

lemma reshape_outputs_Inl: "reshape_outputs xs = Inl e \<Longrightarrow> e = ValueError"
proof (induction xs)
  case Nil
  then show ?case by simp
next
  case (Cons x xs)
  obtain a s where x: "x = (a, s)" by (cases x)
  from Cons show ?case
    unfolding x by (auto simp: bnd_def np_reshape_def split: sum.splits if_splits)
qed

lemma output_shapes_simps:
  "length output_shapes = 3"
  "l < 3 \<Longrightarrow> prod_list (output_shapes ! l) = 3 * ([80, 40, 20] ! l) * ([80, 40, 20] ! l) * 85"
  by (auto simp: output_shapes_def less_Suc_eq numeral_3_eq_3)

lemma detect_Inr:
  "detect outputs = Inr reshaped \<longleftrightarrow>
     (\<forall>l < min (length outputs) 3. length (data (outputs ! l)) = prod_list (output_shapes ! l))
     \<and> reshaped = map (\<lambda>x. (fst x)\<lparr>shape := snd x\<rparr>) (zip outputs output_shapes)"
proof -
  have "(\<forall>x \<in> set (zip outputs output_shapes). prod_list (snd x) = length (data (fst x)))
      \<longleftrightarrow> (\<forall>l < min (length outputs) 3. length (data (outputs ! l)) = prod_list (output_shapes ! l))"
  proof
    assume a: "\<forall>x \<in> set (zip outputs output_shapes). prod_list (snd x) = length (data (fst x))"
    show "\<forall>l < min (length outputs) 3. length (data (outputs ! l)) = prod_list (output_shapes ! l)"
    proof (intro allI impI)
      fix l assume "l < min (length outputs) 3"
      then have "l < length (zip outputs output_shapes)" by (simp add: output_shapes_simps(1))
      then have "zip outputs output_shapes ! l \<in> set (zip outputs output_shapes)"
        by (rule nth_mem)
      with a have "prod_list (snd (zip outputs output_shapes ! l))
          = length (data (fst (zip outputs output_shapes ! l)))" by blast
      then show "length (data (outputs ! l)) = prod_list (output_shapes ! l)"
        using \<open>l < min (length outputs) 3\<close> by (simp add: output_shapes_simps(1))
    qed
  next
    assume a: "\<forall>l < min (length outputs) 3. length (data (outputs ! l)) = prod_list (output_shapes ! l)"
    show "\<forall>x \<in> set (zip outputs output_shapes). prod_list (snd x) = length (data (fst x))"
    proof
      fix x assume "x \<in> set (zip outputs output_shapes)"
      then obtain l where "l < length (zip outputs output_shapes)"
        and x: "x = zip outputs output_shapes ! l" by (auto simp: in_set_conv_nth)
      then have l: "l < min (length outputs) 3" by (simp add: output_shapes_simps(1))
      with a have "length (data (outputs ! l)) = prod_list (output_shapes ! l)" by blast
      then show "prod_list (snd x) = length (data (fst x))"
        using l by (simp add: x output_shapes_simps(1))
    qed
  qed
  then show ?thesis by (simp add: detect_def reshape_outputs_Inr)
qed

text \<open>
  Claim C6, amended: \<open>detect\<close> fails exactly when one of the first three outputs has an
  element count other than \<open>3 * g * g * 85\<close> for its scale (\<open>g\<close> is 80, 40, 20), and then with
  numpy's \<^verbatim>\<open>ValueError\<close>; it has no other failure, and no outputs give the empty list; for
  well-shaped outputs it returns the reshaped tensors, one per scale, whatever their content.
\<close>

theorem detect_reshapes:
  "(detect outputs = Inl ValueError \<longleftrightarrow>
      (\<exists>l < min (length outputs) 3.
          length (data (outputs ! l)) \<noteq> 3 * ([80, 40, 20] ! l) * ([80, 40, 20] ! l) * 85))
   \<and> (\<forall>e. detect outputs = Inl e \<longrightarrow> e = ValueError)
   \<and> detect [] = Inr []
   \<and> (\<forall>reshaped. detect outputs = Inr reshaped \<longrightarrow>
         length reshaped = min (length outputs) 3
         \<and> (\<forall>l < length reshaped. shape (reshaped ! l) = output_shapes ! l
                \<and> data (reshaped ! l) = data (outputs ! l)))"
proof (intro conjI)
  have er: "\<forall>e. detect outputs = Inl e \<longrightarrow> e = ValueError"
    by (auto simp: detect_def dest: reshape_outputs_Inl)
  then show "\<forall>e. detect outputs = Inl e \<longrightarrow> e = ValueError" .
  let ?bad = "\<exists>l < min (length outputs) 3.
          length (data (outputs ! l)) \<noteq> 3 * ([80, 40, 20] ! l) * ([80, 40, 20] ! l) * 85"
  have ok: "(\<exists>reshaped. detect outputs = Inr reshaped) \<longleftrightarrow> \<not> ?bad"
    unfolding detect_Inr by (auto simp: output_shapes_simps)
  show "detect outputs = Inl ValueError \<longleftrightarrow> ?bad"
  proof
    assume "detect outputs = Inl ValueError"
    then have "\<not> (\<exists>reshaped. detect outputs = Inr reshaped)" by simp
    with ok show ?bad by blast
  next
    assume ?bad
    with ok have "\<not> (\<exists>reshaped. detect outputs = Inr reshaped)" by blast
    then obtain e where "detect outputs = Inl e" by (cases "detect outputs") auto
    with er show "detect outputs = Inl ValueError" by blast
  qed
  show "detect [] = Inr []" by (simp add: detect_def)
  show "\<forall>reshaped. detect outputs = Inr reshaped \<longrightarrow>
         length reshaped = min (length outputs) 3
         \<and> (\<forall>l < length reshaped. shape (reshaped ! l) = output_shapes ! l
                \<and> data (reshaped ! l) = data (outputs ! l))"
    unfolding detect_Inr by (auto simp: output_shapes_simps)
qed

theorem detect_reshapes_witness:
  "detect [\<lparr>shape = [5], data = [0, 0, 0, 0, 0]\<rparr>] = Inl ValueError"
proof -
  have "\<exists>l < min (length [\<lparr>shape = [5], data = [0, 0, 0, 0, 0 :: real]\<rparr>]) 3.
          length (data ([\<lparr>shape = [5], data = [0, 0, 0, 0, 0 :: real]\<rparr>] ! l))
            \<noteq> 3 * ([80, 40, 20] ! l) * ([80, 40, 20] ! l) * 85"
    by (intro exI [of _ 0]) simp
  with detect_reshapes [of "[\<lparr>shape = [5], data = [0, 0, 0, 0, 0]\<rparr>]"] show ?thesis
    by blast
qed

lemma ndarray_eqI: "shape a = s \<Longrightarrow> data a = d \<Longrightarrow> a = \<lparr>shape = s, data = d\<rparr>"
  by (cases a) simp

text \<open>
  Claim C6, as stated, fails. On three well-shaped outputs that are zero everywhere, where
  no candidate has an objectness above \<open>0.5\<close> (so that \<open>extract_boxes\<close> returns an empty
  array of boxes), \<open>detect\<close> returns the three reshaped tensors, not an empty list.
\<close>

theorem detect_counterexample:
  "detect [\<lparr>shape = [1632000], data = replicate 1632000 0\<rparr>,
           \<lparr>shape = [408000], data = replicate 408000 0\<rparr>,
           \<lparr>shape = [102000], data = replicate 102000 0\<rparr>]
     = Inr [\<lparr>shape = [1, 3, 80, 80, 85], data = replicate 1632000 0\<rparr>,
            \<lparr>shape = [1, 3, 40, 40, 85], data = replicate 408000 0\<rparr>,
            \<lparr>shape = [1, 3, 20, 20, 85], data = replicate 102000 0\<rparr>]
   \<and> map_sum id fst
        (extract_boxes [\<lparr>shape = [1, 3, 80, 80, 85], data = replicate 1632000 0\<rparr>,
                        \<lparr>shape = [1, 3, 40, 40, 85], data = replicate 408000 0\<rparr>,
                        \<lparr>shape = [1, 3, 20, 20, 85], data = replicate 102000 0\<rparr>] [0, 1, 2] (1 / 2))
     = Inr \<lparr>shape = [0, 4], data = []\<rparr>"
proof
  show "detect [\<lparr>shape = [1632000], data = replicate 1632000 0\<rparr>,
           \<lparr>shape = [408000], data = replicate 408000 0\<rparr>,
           \<lparr>shape = [102000], data = replicate 102000 0\<rparr>]
     = Inr [\<lparr>shape = [1, 3, 80, 80, 85], data = replicate 1632000 0\<rparr>,
            \<lparr>shape = [1, 3, 40, 40, 85], data = replicate 408000 0\<rparr>,
            \<lparr>shape = [1, 3, 20, 20, 85], data = replicate 102000 0\<rparr>]"
    by (simp add: detect_def output_shapes_def np_reshape_def)
  let ?h = "[\<lparr>shape = [1, 3, 80, 80, 85], data = replicate 1632000 (0::real)\<rparr>,
             \<lparr>shape = [1, 3, 40, 40, 85], data = replicate 408000 0\<rparr>,
             \<lparr>shape = [1, 3, 20, 20, 85], data = replicate 102000 0\<rparr>]"
  define raw_all where "raw_all = concat (map (\<lambda>out. data (?h ! out)) (take 3 [0, 1, 2]))"
  have A: "\<forall>out \<in> set [0, 1, 2]. out < length ?h \<and> well_shaped (?h ! out)
                \<and> (\<exists>n. shape (?h ! out) = [1, 3, n, n, 85])"
    by (simp add: well_shaped_def)
  have ne: "[0, 1, 2 :: nat] \<noteq> []" by simp
  from extract_boxes_keeps [OF A ne raw_all_def, of "1 / 2"] obtain boxes h' where
    r: "extract_boxes ?h [0, 1, 2] (1 / 2) = Inr (boxes, h')"
    and sb: "shape boxes = [length (filter (\<lambda>r. 1 / 2 < sigmoid (raw_all ! (r * 85 + 4)))
                                  [0..<length raw_all div 85]), 4]"
    and wb: "well_shaped boxes"
    by blast
  have z: "set raw_all \<subseteq> {0}"
    by (auto simp: raw_all_def)
  have "\<not> 1 / 2 < sigmoid (raw_all ! (r * 85 + 4))" if "r < length raw_all div 85" for r
  proof -
    from that have "r * 85 + 4 < length raw_all" by arith
    then have "raw_all ! (r * 85 + 4) \<in> set raw_all" by (rule nth_mem)
    with z have "raw_all ! (r * 85 + 4) = 0" by auto
    then show ?thesis by (simp add: sigmoid_0)
  qed
  then have "filter (\<lambda>r. 1 / 2 < sigmoid (raw_all ! (r * 85 + 4))) [0..<length raw_all div 85] = []"
    by (simp add: filter_empty_conv)
  with sb have s0: "shape boxes = [0, 4]" by simp
  with wb have "data boxes = []" by (simp add: well_shaped_def)
  with s0 have "boxes = \<lparr>shape = [0, 4], data = []\<rparr>" by (rule ndarray_eqI)
  with r show "map_sum id fst (extract_boxes ?h [0, 1, 2] (1 / 2)) = Inr \<lparr>shape = [0, 4], data = []\<rparr>"
    by simp
qed

section \<open>Suppression\<close>

lemma nms_image_raises: "nms_image pred xc xi \<noteq> Inr x"
  by (simp add: nms_image_def bnd_def split: sum.splits)

lemma nms_images_raises: "xis \<noteq> [] \<Longrightarrow> nms_images pred xc xis output \<noteq> Inr r"
  by (cases xis) (simp_all add: bnd_eq_Inr nms_image_raises)

text \<open>Whatever it is given, \<open>non_max_suppression\<close> raises: it has no normal return.\<close>

lemma non_max_suppression_raises:
  "non_max_suppression pred conf_thres iou_thres classes \<noteq> Inr output"
proof
  assume a: "non_max_suppression pred conf_thres iou_thres classes = Inr output"
  then obtain pred0 where p0: "np_index0 pred 0 = Inr pred0"
    by (auto simp: non_max_suppression_def bnd_eq_Inr)
  then obtain n rest where s: "shape pred = n # rest" and n: "0 < n"
    by (auto simp: np_index0_def split: list.splits if_splits)
  then have l: "np_len pred = Inr n" by (simp add: np_len_def)
  from n have "[0..<n] \<noteq> []" by simp
  with a p0 l show False
    by (auto simp: non_max_suppression_def bnd_eq_Inr Let_def nms_images_raises split: if_splits)
qed

text \<open>
  The fusion of \<open>non_max_suppression\<close>: every class column of a candidate is multiplied by
  the objectness column of the candidate, as the values stand in \<open>pred\<close>.
\<close>

lemma nms_fuse_items:
  assumes s: "shape x = [K, d]" and d: "5 \<le> d"
  shows "\<exists>x'. nms_fuse x = Inr x' \<and> shape x' = [K, d]
     \<and> (\<forall>k < K. \<forall>c < d. item x' [k, c] =
            (if 5 \<le> c then item x [k, c] * item x [k, 4] else item x [k, c]))"
proof -
  define cls where "cls = tabulate [K, d - 5] (\<lambda>idx. item x (butlast idx @ [5 + last idx]))"
  define obj where "obj = tabulate [K, 1] (\<lambda>idx. item x (butlast idx @ [4 + last idx]))"
  define v where "v = tabulate [K, d - 5] (\<lambda>idx. bitem cls idx * bitem obj idx)"
  define x' where "x' = tabulate [K, d]
       (\<lambda>idx. if 5 \<le> last idx \<and> last idx < d then bitem v (butlast idx @ [last idx - 5])
              else item x idx)"
  have sc: "slice_from 5 x = Inr cls"
    using d by (simp add: slice_from_def slice_last_def slice_bounds_def s cls_def min_def max_def)
  have so: "slice_last 4 5 x = Inr obj"
    using d by (simp add: slice_last_def slice_bounds_def s obj_def min_def max_def)
  have shc: "shape cls = [K, d - 5]" and sho: "shape obj = [K, 1]" and shv: "shape v = [K, d - 5]"
    by (simp_all add: cls_def obj_def v_def)
  have bo: "np_binop (*) cls obj = Inr v"
    by (simp add: np_binop_def shc sho bshape_def pad_shape_def v_def)
  have as: "assign_last 5 (last (shape x)) x v = Inr x'"
    using d by (simp add: assign_last_def slice_bounds_def s shv bshape_def pad_shape_def
        x'_def min_def max_def)
  have e: "nms_fuse x = Inr x'"
    by (simp add: nms_fuse_def sc so bo as)
  have "item x' [k, c] = (if 5 \<le> c then item x [k, c] * item x [k, 4] else item x [k, c])"
    if k: "k < K" and c: "c < d" for k c
  proof -
    have ib: "in_bounds [K, d] [k, c]" using k c by simp
    have 1: "item x' [k, c] = (if 5 \<le> c then bitem v [k, c - 5] else item x [k, c])"
      unfolding x'_def using c by (subst item_tabulate [OF ib]) simp
    have "bitem v [k, c - 5] = item x [k, c] * item x [k, 4]" if c5: "5 \<le> c"
    proof -
      have ibv: "in_bounds [K, d - 5] [k, c - 5]" using k c c5 by simp
      have ibo: "in_bounds [K, 1] [k, 0]" using k by simp
      have "bitem v [k, c - 5] = item v [k, c - 5]"
        using k c c5 by (simp add: bitem_def shv)
      also have "\<dots> = bitem cls [k, c - 5] * bitem obj [k, c - 5]"
        unfolding v_def by (rule item_tabulate [OF ibv])
      also have "bitem cls [k, c - 5] = item cls [k, c - 5]"
        using k c c5 by (simp add: bitem_def shc)
      also have "item cls [k, c - 5] = item x [k, c]"
        unfolding cls_def using c5 by (subst item_tabulate [OF ibv]) simp
      also have "bitem obj [k, c - 5] = item obj [k, 0]"
        using k by (simp add: bitem_def sho)
      also have "item obj [k, 0] = item x [k, 4]"
        unfolding obj_def by (subst item_tabulate [OF ibo]) simp
      finally show ?thesis .
    qed
    with 1 show ?thesis by simp
  qed
  moreover have "shape x' = [K, d]" by (simp add: x'_def)
  ultimately show ?thesis using e by blast
qed

text \<open>
  Claim C4 fails at the filtering site of \<open>non_max_suppression\<close>. Called with
  \<open>conf_thres = 0.5\<close> on one image with one candidate of objectness \<open>0.3\<close>, the mask is
  true for that candidate and the candidate is kept: the comparison is with \<open>0.1\<close>.
\<close>

theorem nms_filter_ignores_conf_thres:
  "nms_xc \<lparr>shape = [1, 1, 6], data = [0, 0, 1, 1, 3 / 10, 8 / 10]\<rparr> (1 / 2)
     = Inr \<lparr>shape = [1, 1], data = [True]\<rparr>
   \<and> nms_candidates \<lparr>shape = [1, 1, 6], data = [0, 0, 1, 1, 3 / 10, 8 / 10]\<rparr>
        \<lparr>shape = [1, 1], data = [True]\<rparr> 0
     = Inr \<lparr>shape = [1, 6], data = [0, 0, 1, 1, 3 / 10, 8 / 10]\<rparr>"
  by code_simp

text \<open>
  Claim C7 fails for \<open>non_max_suppression\<close>. With one candidate above \<open>0.1\<close> the call
  ends in \<^verbatim>\<open>sys.exit()\<close>; with no candidate above \<open>0.1\<close> (an empty list of boxes) it ends in
  the \<^verbatim>\<open>IndexError\<close> of \<^verbatim>\<open>x[0]\<close>.
\<close>

theorem non_max_suppression_exits:
  "non_max_suppression \<lparr>shape = [1, 1, 6], data = [0, 0, 1, 1, 9 / 10, 8 / 10]\<rparr> (1 / 10) (6 / 10) None
     = Inl SystemExit
   \<and> non_max_suppression \<lparr>shape = [1, 1, 6], data = [0, 0, 1, 1, 5 / 100, 8 / 10]\<rparr> (1 / 10) (6 / 10) None
     = Inl IndexError"
  by code_simp


text \<open>
  Claim C10: for a non-empty \<open>boxes\<close>, \<open>nms\<close> returns \<^verbatim>\<open>None\<close>; it returns the empty list
  exactly for an empty \<open>boxes\<close>; \<open>iou_thres\<close> and \<open>max_det\<close> have no effect on the result.
\<close>

theorem nms_returns_none:
  "(\<forall>n. np_len boxes = Inr n \<and> n \<noteq> 0 \<longrightarrow> nms boxes scores iou_thres max_det = Inr None)
   \<and> (nms boxes scores iou_thres max_det = Inr (Some []) \<longleftrightarrow> np_len boxes = Inr 0)
   \<and> nms boxes scores iou_thres max_det = nms boxes scores iou_thres' max_det'"
  by (auto simp: nms_def np_len_def split: list.splits)

theorem nms_returns_none_witness:
  "np_len \<lparr>shape = [1, 4], data = [0, 0, 1, 1 :: real]\<rparr> = Inr 1
   \<and> nms \<lparr>shape = [1, 4], data = [0, 0, 1, 1]\<rparr> \<lparr>shape = [1], data = [9 / 10]\<rparr> (6 / 10) 30
       = Inr None"
  using nms_returns_none [of "\<lparr>shape = [1, 4], data = [0, 0, 1, 1]\<rparr>"
      "\<lparr>shape = [1], data = [9 / 10]\<rparr>" "6 / 10" 30]
  by (simp add: np_len_def)

end
